theory Spec2Isabelle
  imports Main
begin

section \<open>Bitcoin transaction hex decoder (transaction\_decoder.py)\<close>

text \<open>
  The decoder works on the hexadecimal text itself: the cursor \<open>offset\<close> counts
  characters of \<open>tx_hex\<close>, two per byte. It declares no exception class of its own; the
  only way a decode fails is a \<open>ValueError\<close> raised by the builtins \<open>int(s, 16)\<close> and
  \<open>bytes.fromhex(s)\<close>. Python strings are modelled as \<open>string\<close>, a character being a
  code point below 256; Python integers as \<open>int\<close>; a \<open>bytes\<close> object as a list of
  naturals.
\<close>

datatype error = ValueError

subsection \<open>Python builtins used by the decoder\<close>

text \<open>
  Slicing \<open>s[i:j]\<close>: a negative bound counts from the end, and both bounds are clamped to
  the string, so a slice never raises and is shorter than \<open>j - i\<close> when the string ends
  early.
\<close>

definition py_index :: "nat \<Rightarrow> int \<Rightarrow> nat" where
  "py_index n i = (if i < 0 then nat (max 0 (int n + i)) else min n (nat i))"

definition py_slice :: "'a list \<Rightarrow> int \<Rightarrow> int \<Rightarrow> 'a list" where
  "py_slice s i j =
     (let lo = py_index (length s) i; hi = py_index (length s) j
      in take (hi - lo) (drop lo s))"

text \<open>The value of a hexadecimal digit, in either case; \<open>None\<close> for any other character.\<close>

definition digit_value :: "char \<Rightarrow> nat option" where
  "digit_value c =
     (let k = (of_char c :: nat)
      in if 48 \<le> k \<and> k \<le> 57 then Some (k - 48)
         else if 97 \<le> k \<and> k \<le> 102 then Some (k - 87)
         else if 65 \<le> k \<and> k \<le> 70 then Some (k - 55)
         else None)"

text \<open>
  \<open>bytes.fromhex\<close> (Python 3.7 and later): ASCII whitespace is skipped before a pair of
  digits, never inside one; anything else that is not a pair of hexadecimal digits,
  a lone final digit included, raises \<open>ValueError\<close>.
\<close>

definition is_ascii_space :: "char \<Rightarrow> bool" where
  "is_ascii_space c = ((of_char c :: nat) \<in> {9, 10, 11, 12, 13, 32})"

fun fromhex :: "string \<Rightarrow> error + nat list" where
  "fromhex [] = Inr []"
| "fromhex (c # cs) =
     (if is_ascii_space c then fromhex cs
      else (case digit_value c of
              None \<Rightarrow> Inl ValueError
            | Some hi \<Rightarrow>
                (case cs of
                   [] \<Rightarrow> Inl ValueError
                 | d # ds \<Rightarrow>
                     (case digit_value d of
                        None \<Rightarrow> Inl ValueError
                      | Some lo \<Rightarrow>
                          (case fromhex ds of
                             Inl e \<Rightarrow> Inl e
                           | Inr bs \<Rightarrow> Inr ((hi * 16 + lo) # bs))))))"

text \<open>
  \<open>int(s, 16)\<close>: surrounding whitespace is stripped (for a string the tab to carriage
  return range, the space, and the code points 133 and 160); then an optional sign, an
  optional \<open>0x\<close> or \<open>0X\<close> prefix which may be followed by one underscore, and at least
  one digit, with single underscores allowed between digits. The empty string raises
  \<open>ValueError\<close>.
\<close>

definition is_space :: "char \<Rightarrow> bool" where
  "is_space c = ((of_char c :: nat) \<in> {9, 10, 11, 12, 13, 32, 133, 160})"

definition strip :: "string \<Rightarrow> string" where
  "strip s = rev (dropWhile is_space (rev (dropWhile is_space s)))"

fun digits16 :: "int \<Rightarrow> string \<Rightarrow> error + int" where
  "digits16 acc [] = Inr acc"
| "digits16 acc (c # cs) =
     (if c = CHR ''_'' then
        (case cs of
           [] \<Rightarrow> Inl ValueError
         | d # ds \<Rightarrow>
             (case digit_value d of
                None \<Rightarrow> Inl ValueError
              | Some v \<Rightarrow> digits16 (acc * 16 + int v) ds))
      else (case digit_value c of
              None \<Rightarrow> Inl ValueError
            | Some v \<Rightarrow> digits16 (acc * 16 + int v) cs))"

definition strip_sign :: "string \<Rightarrow> bool \<times> string" where
  "strip_sign s =
     (case s of
        [] \<Rightarrow> (False, s)
      | c # cs \<Rightarrow>
          if c = CHR ''+'' then (False, cs)
          else if c = CHR ''-'' then (True, cs)
          else (False, s))"

definition strip_prefix16 :: "string \<Rightarrow> string" where
  "strip_prefix16 s =
     (case s of
        a # b # r \<Rightarrow>
          if a = CHR ''0'' \<and> (b = CHR ''x'' \<or> b = CHR ''X'')
          then (case r of [] \<Rightarrow> r | c # r' \<Rightarrow> if c = CHR ''_'' then r' else r)
          else s
      | _ \<Rightarrow> s)"

definition py_int16 :: "string \<Rightarrow> error + int" where
  "py_int16 s =
     (let (neg, u) = strip_sign (strip s)
      in case strip_prefix16 u of
           [] \<Rightarrow> Inl ValueError
         | c # cs \<Rightarrow>
             (case digit_value c of
                None \<Rightarrow> Inl ValueError
              | Some v \<Rightarrow>
                  (case digits16 (int v) cs of
                     Inl e \<Rightarrow> Inl e
                   | Inr n \<Rightarrow> Inr (if neg then - n else n))))"

text \<open>\<open>int.from_bytes(bs, byteorder='little')\<close> and \<open>bytes.hex()\<close>.\<close>

fun from_bytes_little :: "nat list \<Rightarrow> int" where
  "from_bytes_little [] = 0"
| "from_bytes_little (b # bs) = int b + 256 * from_bytes_little bs"

definition hex_digit :: "nat \<Rightarrow> char" where
  "hex_digit n = ''0123456789abcdef'' ! n"

definition hex :: "nat list \<Rightarrow> string" where
  "hex bs = concat (map (\<lambda>b. [hex_digit (b div 16), hex_digit (b mod 16)]) bs)"

text \<open>An exception raised by a step aborts every step after it.\<close>

definition bind :: "error + 'a \<Rightarrow> ('a \<Rightarrow> error + 'b) \<Rightarrow> error + 'b" where
  "bind m f = (case m of Inl e \<Rightarrow> Inl e | Inr x \<Rightarrow> f x)"

subsection \<open>The primitive readers\<close>

text \<open>
  \<open>read_bytes(tx_hex, offset, length)\<close>: the slice is converted whatever its length, and
  the cursor moves by \<open>length * 2\<close> characters whether or not the slice was that long.
\<close>

definition read_bytes :: "string \<Rightarrow> int \<Rightarrow> int \<Rightarrow> error + (nat list \<times> int)" where
  "read_bytes tx_hex offset len =
     bind (fromhex (py_slice tx_hex offset (offset + len * 2)))
       (\<lambda>bytes_data. Inr (bytes_data, offset + len * 2))"

text \<open>
  \<open>read_varint(tx_hex, offset)\<close>: the follow-on characters of the three long forms are
  handed to \<open>int(s, 16)\<close> as one hexadecimal numeral.
\<close>

definition read_varint :: "string \<Rightarrow> int \<Rightarrow> error + (int \<times> int)" where
  "read_varint tx_hex offset =
     bind (py_int16 (py_slice tx_hex offset (offset + 2)))
       (\<lambda>first_byte.
          let offset = offset + 2
          in if first_byte < 0xfd then Inr (first_byte, offset)
             else if first_byte = 0xfd then
               bind (py_int16 (py_slice tx_hex offset (offset + 4)))
                 (\<lambda>v. Inr (v, offset + 4))
             else if first_byte = 0xfe then
               bind (py_int16 (py_slice tx_hex offset (offset + 8)))
                 (\<lambda>v. Inr (v, offset + 8))
             else
               bind (py_int16 (py_slice tx_hex offset (offset + 16)))
                 (\<lambda>v. Inr (v, offset + 16)))"

subsection \<open>The decoded record\<close>

text \<open>
  The dictionaries built by \<open>parse_transaction\<close>. The source stores an output's amount
  as the float \<open>int.from_bytes(value_bytes, 'little') / 1e8\<close>; the record keeps the
  integer before that division.
\<close>

record tx_input =
  txid :: string
  vout :: int
  scriptSig :: string
  sequence :: int

record tx_output =
  value_satoshi :: int
  scriptPubKey :: string

record transaction =
  version :: int
  segwit :: bool
  inputs :: "tx_input list"
  outputs :: "tx_output list"
  witnesses :: "string list list"
  locktime :: int

subsection \<open>parse\_transaction\<close>

text \<open>The body of the input loop (one pass of \<open>for _ in range(input_count)\<close>).\<close>

definition parse_input :: "string \<Rightarrow> int \<Rightarrow> error + (tx_input \<times> int)" where
  "parse_input tx_hex offset =
     bind (read_bytes tx_hex offset 32) (\<lambda>(txid_bytes, offset).
     bind (read_bytes tx_hex offset 4) (\<lambda>(vout_bytes, offset).
     bind (read_varint tx_hex offset) (\<lambda>(script_len, offset).
     bind (read_bytes tx_hex offset script_len) (\<lambda>(script_sig_bytes, offset).
     bind (read_bytes tx_hex offset 4) (\<lambda>(sequence_bytes, offset).
       Inr (\<lparr>txid = hex (rev txid_bytes),
             vout = from_bytes_little vout_bytes,
             scriptSig = hex script_sig_bytes,
             sequence = from_bytes_little sequence_bytes\<rparr>, offset))))))"

text \<open>
  A \<open>for\<close> loop over \<open>range(n)\<close> runs \<open>n\<close> times, and not at all when \<open>n\<close> is
  negative: the loops below take \<open>nat n\<close> passes, each appending to the list \<open>acc\<close> built so far.
\<close>

fun parse_inputs ::
  "string \<Rightarrow> nat \<Rightarrow> int \<Rightarrow> tx_input list \<Rightarrow> error + (tx_input list \<times> int)" where
  "parse_inputs tx_hex 0 offset acc = Inr (acc, offset)"
| "parse_inputs tx_hex (Suc n) offset acc =
     bind (parse_input tx_hex offset)
       (\<lambda>(inp, offset). parse_inputs tx_hex n offset (acc @ [inp]))"

definition parse_output :: "string \<Rightarrow> int \<Rightarrow> error + (tx_output \<times> int)" where
  "parse_output tx_hex offset =
     bind (read_bytes tx_hex offset 8) (\<lambda>(value_bytes, offset).
     bind (read_varint tx_hex offset) (\<lambda>(script_len, offset).
     bind (read_bytes tx_hex offset script_len) (\<lambda>(script_pubkey_bytes, offset).
       Inr (\<lparr>value_satoshi = from_bytes_little value_bytes,
             scriptPubKey = hex script_pubkey_bytes\<rparr>, offset))))"

fun parse_outputs ::
  "string \<Rightarrow> nat \<Rightarrow> int \<Rightarrow> tx_output list \<Rightarrow> error + (tx_output list \<times> int)" where
  "parse_outputs tx_hex 0 offset acc = Inr (acc, offset)"
| "parse_outputs tx_hex (Suc n) offset acc =
     bind (parse_output tx_hex offset)
       (\<lambda>(out, offset). parse_outputs tx_hex n offset (acc @ [out]))"

fun parse_witness_items ::
  "string \<Rightarrow> nat \<Rightarrow> int \<Rightarrow> string list \<Rightarrow> error + (string list \<times> int)" where
  "parse_witness_items tx_hex 0 offset acc = Inr (acc, offset)"
| "parse_witness_items tx_hex (Suc n) offset acc =
     bind (read_varint tx_hex offset) (\<lambda>(item_len, offset).
     bind (read_bytes tx_hex offset item_len) (\<lambda>(item_bytes, offset).
       parse_witness_items tx_hex n offset (acc @ [hex item_bytes])))"

fun parse_witnesses ::
  "string \<Rightarrow> nat \<Rightarrow> int \<Rightarrow> string list list \<Rightarrow> error + (string list list \<times> int)" where
  "parse_witnesses tx_hex 0 offset acc = Inr (acc, offset)"
| "parse_witnesses tx_hex (Suc n) offset acc =
     bind (read_varint tx_hex offset) (\<lambda>(witness_count, offset).
     bind (parse_witness_items tx_hex (nat witness_count) offset []) (\<lambda>(witness_items, offset).
       parse_witnesses tx_hex n offset (acc @ [witness_items])))"

text \<open>
  The SegWit check: marker and flag are both converted before either is tested, and
  the cursor moves by four characters only when the test holds.
\<close>

definition check_segwit :: "string \<Rightarrow> int \<Rightarrow> error + (bool \<times> int)" where
  "check_segwit tx_hex offset =
     bind (py_int16 (py_slice tx_hex offset (offset + 2))) (\<lambda>marker.
     bind (py_int16 (py_slice tx_hex (offset + 2) (offset + 4))) (\<lambda>flag.
       if marker = 0 \<and> flag \<noteq> 0 then Inr (True, offset + 4) else Inr (False, offset)))"

text \<open>
  Everything from the input count on, given what the SegWit check decided; the result
  carries the cursor after the locktime next to the record.
\<close>

definition parse_body ::
  "string \<Rightarrow> int \<Rightarrow> bool \<Rightarrow> int \<Rightarrow> error + (transaction \<times> int)" where
  "parse_body tx_hex ver is_segwit offset =
     bind (read_varint tx_hex offset) (\<lambda>(input_count, offset).
     bind (parse_inputs tx_hex (nat input_count) offset []) (\<lambda>(inputs, offset).
     bind (read_varint tx_hex offset) (\<lambda>(output_count, offset).
     bind (parse_outputs tx_hex (nat output_count) offset []) (\<lambda>(outputs, offset).
     bind (if is_segwit then parse_witnesses tx_hex (nat input_count) offset []
           else Inr ([], offset)) (\<lambda>(witnesses, offset).
     bind (read_bytes tx_hex offset 4) (\<lambda>(locktime_bytes, offset).
       Inr (\<lparr>version = ver,
             segwit = is_segwit,
             inputs = inputs,
             outputs = outputs,
             witnesses = witnesses,
             locktime = from_bytes_little locktime_bytes\<rparr>, offset)))))))"

definition parse_transaction_cursor :: "string \<Rightarrow> error + (transaction \<times> int)" where
  "parse_transaction_cursor tx_hex =
     bind (read_bytes tx_hex 0 4) (\<lambda>(version_bytes, offset).
     bind (check_segwit tx_hex offset) (\<lambda>(segwit, offset).
       parse_body tx_hex (from_bytes_little version_bytes) segwit offset))"

definition parse_transaction :: "string \<Rightarrow> error + transaction" where
  "parse_transaction tx_hex = map_sum id fst (parse_transaction_cursor tx_hex)"

text \<open>The transaction decoded by the program's main block.\<close>

definition sample_tx :: string where
  "sample_tx = ''0200000000010131811cd355c357e0e01437d9bcf690df824e9ff785012b6115dfae3d8e8b36c10100000000fdffffff0220a107000000000016001485d78eb795bd9c8a21afefc8b6fdaedf718368094c08100000000000160014840ab165c9c2555d4a31b9208ad806f89d2535e20247304402207bce86d430b58bb6b79e8c1bbecdf67a530eff3bc61581a1399e0b28a741c0ee0220303d5ce926c60bf15577f2e407f28a2ef8fe8453abd4048b716e97dbb1e3a85c01210260828bc77486a55e3bc6032ccbeda915d9494eda17b4a54dbe3b24506d40e4ff43030e00''"

text \<open>What the main block prints for it.\<close>

definition sample_record :: transaction where
  "sample_record =
     \<lparr>version = 2, segwit = True,
      inputs =
        [\<lparr>txid = ''c1368b8e3daedf15612b0185f79f4e82df90f6bcd93714e0e057c355d31c8131'',
           vout = 1, scriptSig = [], sequence = 4294967293\<rparr>],
      outputs =
        [\<lparr>value_satoshi = 500000,
           scriptPubKey = ''001485d78eb795bd9c8a21afefc8b6fdaedf71836809''\<rparr>,
         \<lparr>value_satoshi = 1050700,
           scriptPubKey = ''0014840ab165c9c2555d4a31b9208ad806f89d2535e2''\<rparr>],
      witnesses =
        [[''304402207bce86d430b58bb6b79e8c1bbecdf67a530eff3bc61581a1399e0b28a741c0ee0220303d5ce926c60bf15577f2e407f28a2ef8fe8453abd4048b716e97dbb1e3a85c01'',
          ''0260828bc77486a55e3bc6032ccbeda915d9494eda17b4a54dbe3b24506d40e4ff'']],
      locktime = 918339\<rparr>"

subsection \<open>The wire format, for stating what the decoder computes\<close>

text \<open>
  Hexadecimal text in the sense of the interface: every character is a hexadecimal
  digit. Read two characters to the byte, the \<open>n\<close> bytes at character position
  \<open>pos\<close> are \<open>wire_bytes\<close>; \<open>le_uint\<close> is their value as a little-endian unsigned
  integer and \<open>hex_numeral\<close> the value of digits read as one numeral, most significant
  digit first.
\<close>

definition hexstr :: "string \<Rightarrow> bool" where
  "hexstr s = list_all (\<lambda>c. digit_value c \<noteq> None) s"

definition digit_nat :: "char \<Rightarrow> nat" where
  "digit_nat c = (case digit_value c of None \<Rightarrow> 0 | Some v \<Rightarrow> v)"

fun hex_bytes :: "string \<Rightarrow> nat list" where
  "hex_bytes (a # b # cs) = (digit_nat a * 16 + digit_nat b) # hex_bytes cs"
| "hex_bytes [a] = []"
| "hex_bytes [] = []"

definition wire_bytes :: "string \<Rightarrow> nat \<Rightarrow> nat \<Rightarrow> nat list" where
  "wire_bytes tx_hex pos n = hex_bytes (take (2 * n) (drop pos tx_hex))"

definition le_uint :: "nat list \<Rightarrow> int" where
  "le_uint bs = (\<Sum>i < length bs. int (bs ! i) * 256 ^ i)"

definition hex_numeral :: "string \<Rightarrow> int" where
  "hex_numeral s = foldl (\<lambda>a c. a * 16 + int (digit_nat c)) 0 s"


subsection \<open>Readers that only look at what they step over\<close>

text \<open>
  The property the results about truncated and extended text rest on. On hexadecimal
  text a reader returns a value satisfying \<open>Q\<close>, moves the cursor forward by an even
  number of characters, and returns the same on every text that agrees with this one
  up to the new cursor.
\<close>

definition local_reader ::
  "('a \<Rightarrow> bool) \<Rightarrow> (string \<Rightarrow> int \<Rightarrow> error + ('a \<times> int)) \<Rightarrow> bool" where
  "local_reader Q R =
     (\<forall>s off v off'. hexstr s \<longrightarrow> 0 \<le> off \<longrightarrow> R s off = Inr (v, off') \<longrightarrow>
        Q v \<and> off \<le> off' \<and> even (off' - off) \<and>
        (\<forall>t k. take k s = take k t \<longrightarrow> off' \<le> int k \<longrightarrow> R t off = Inr (v, off')))"

text \<open>The steps of \<open>parse_body\<close> before the locktime is read.\<close>

definition fields_before_locktime ::
  "string \<Rightarrow> bool \<Rightarrow> int \<Rightarrow>
     error + ((tx_input list \<times> tx_output list \<times> string list list) \<times> int)" where
  "fields_before_locktime tx_hex is_segwit offset =
     bind (read_varint tx_hex offset) (\<lambda>(input_count, offset).
     bind (parse_inputs tx_hex (nat input_count) offset []) (\<lambda>(inputs, offset).
     bind (read_varint tx_hex offset) (\<lambda>(output_count, offset).
     bind (parse_outputs tx_hex (nat output_count) offset []) (\<lambda>(outputs, offset).
     bind (if is_segwit then parse_witnesses tx_hex (nat input_count) offset []
           else Inr ([], offset)) (\<lambda>(witnesses, offset).
       Inr ((inputs, outputs, witnesses), offset))))))"

text \<open>Version, SegWit check and those steps, from the start of the text.\<close>

definition header_and_fields ::
  "string \<Rightarrow> error + ((int \<times> bool \<times> tx_input list \<times> tx_output list \<times> string list list) \<times> int)" where
  "header_and_fields tx_hex =
     bind (read_bytes tx_hex 0 4) (\<lambda>(version_bytes, offset).
     bind (check_segwit tx_hex offset) (\<lambda>(is_segwit, offset).
     bind (fields_before_locktime tx_hex is_segwit offset) (\<lambda>((inputs, outputs, witnesses), offset).
       Inr ((from_bytes_little version_bytes, is_segwit, inputs, outputs, witnesses), offset))))"

section \<open>Properties of the builtins\<close>

lemma bind_Inr: "bind (Inr x) f = f x"
  by (simp add: bind_def)

lemma bind_Inl: "bind (Inl e) f = Inl e"
  by (simp add: bind_def)

lemma bind_eq_Inr: "bind m f = Inr y \<longleftrightarrow> (\<exists>x. m = Inr x \<and> f x = Inr y)"
  by (cases m) (simp_all add: bind_def)

lemma bindE: "bind m f = Inr y \<Longrightarrow> (\<And>x. m = Inr x \<Longrightarrow> f x = Inr y \<Longrightarrow> P) \<Longrightarrow> P"
  by (auto simp: bind_eq_Inr)

lemma error_is_ValueError: "(e :: error) = ValueError"
  by (cases e) simp

lemma digit_value_lt16: "digit_value c = Some v \<Longrightarrow> v < 16"
  by (auto simp: digit_value_def Let_def split: if_splits)

lemma digit_nat_lt16: "digit_nat c < 16"
  by (auto simp: digit_nat_def dest: digit_value_lt16 split: option.splits)

lemma digit_not_space: "digit_value c \<noteq> None \<Longrightarrow> \<not> is_space c"
  by (auto simp: digit_value_def is_space_def Let_def split: if_splits)

lemma digit_not_ascii_space: "digit_value c \<noteq> None \<Longrightarrow> \<not> is_ascii_space c"
  by (auto simp: digit_value_def is_ascii_space_def Let_def split: if_splits)

lemma digit_value_special:
  "digit_value (CHR ''_'') = None" "digit_value (CHR ''+'') = None"
  "digit_value (CHR ''-'') = None" "digit_value (CHR ''x'') = None"
  "digit_value (CHR ''X'') = None"
  by (simp_all add: digit_value_def)

lemma digit_value_digit_nat: "digit_value c \<noteq> None \<Longrightarrow> digit_value c = Some (digit_nat c)"
  by (auto simp: digit_nat_def)

lemma hexstr_Nil: "hexstr []"
  by (simp add: hexstr_def)

lemma hexstr_Cons: "hexstr (c # cs) \<longleftrightarrow> digit_value c \<noteq> None \<and> hexstr cs"
  by (simp add: hexstr_def)

lemma hexstr_append: "hexstr (xs @ ys) \<longleftrightarrow> hexstr xs \<and> hexstr ys"
  by (simp add: hexstr_def)

lemma hexstr_take: "hexstr s \<Longrightarrow> hexstr (take n s)"
  by (auto simp: hexstr_def list_all_iff dest: in_set_takeD)

lemma hexstr_drop: "hexstr s \<Longrightarrow> hexstr (drop n s)"
  by (auto simp: hexstr_def list_all_iff dest: in_set_dropD)

lemma hexstr_slice: "hexstr s \<Longrightarrow> hexstr (py_slice s i j)"
  by (simp add: py_slice_def Let_def hexstr_take hexstr_drop)

lemma hexstr_set: "hexstr s \<Longrightarrow> c \<in> set s \<Longrightarrow> digit_value c \<noteq> None"
  by (simp add: hexstr_def list_all_iff)

lemma strip_hexstr: "hexstr s \<Longrightarrow> strip s = s"
proof (cases "s = []")
  case True
  then show ?thesis by (simp add: strip_def)
next
  case False
  assume h: "hexstr s"
  from False h have "\<not> is_space (hd s)"
    by (intro digit_not_space hexstr_set[OF h]) simp
  then have a: "dropWhile is_space s = s"
    by (simp add: dropWhile_eq_self_iff)
  from False h have "\<not> is_space (last s)"
    by (intro digit_not_space hexstr_set[OF h]) simp
  then have "dropWhile is_space (rev s) = rev s"
    using False by (simp add: dropWhile_eq_self_iff hd_rev)
  with a show ?thesis by (simp add: strip_def)
qed

lemma strip_sign_hexstr: "hexstr s \<Longrightarrow> strip_sign s = (False, s)"
  by (cases s) (auto simp: strip_sign_def hexstr_Cons digit_value_special)

lemma strip_prefix16_hexstr: "hexstr s \<Longrightarrow> strip_prefix16 s = s"
  by (auto simp: strip_prefix16_def hexstr_Cons digit_value_special split: list.splits)

lemma digits16_hexstr:
  "hexstr cs \<Longrightarrow> digits16 acc cs = Inr (foldl (\<lambda>a c. a * 16 + int (digit_nat c)) acc cs)"
proof (induction cs arbitrary: acc)
  case Nil
  then show ?case by simp
next
  case (Cons c cs)
  then have d: "digit_value c = Some (digit_nat c)" and h: "hexstr cs"
    by (simp_all add: hexstr_Cons digit_value_digit_nat)
  from d have "c \<noteq> CHR ''_''"
    using digit_value_special(1) by auto
  with d Cons.IH[OF h] show ?case by simp
qed

lemma py_int16_Nil: "py_int16 [] = Inl ValueError"
  by (simp add: py_int16_def strip_def strip_sign_def strip_prefix16_def)

lemma py_int16_hexstr:
  assumes "hexstr s" "s \<noteq> []"
  shows "py_int16 s = Inr (hex_numeral s)"
proof -
  from assms obtain c cs where s: "s = c # cs" by (cases s) auto
  with assms have d: "digit_value c = Some (digit_nat c)" and h: "hexstr cs"
    by (simp_all add: hexstr_Cons digit_value_digit_nat)
  show ?thesis
    using assms(1) d h
    by (simp add: py_int16_def strip_hexstr strip_sign_hexstr strip_prefix16_hexstr
        s digits16_hexstr hex_numeral_def)
qed

lemma foldl_hex_nonneg:
  "0 \<le> acc \<Longrightarrow> 0 \<le> foldl (\<lambda>a c. a * 16 + int (digit_nat c)) acc cs"
  by (induction cs arbitrary: acc) simp_all

lemma hex_numeral_nonneg: "0 \<le> hex_numeral s"
  by (simp add: hex_numeral_def foldl_hex_nonneg)

lemma py_int16_hexstr_cases:
  "hexstr s \<Longrightarrow> py_int16 s = (if s = [] then Inl ValueError else Inr (hex_numeral s))"
  by (simp add: py_int16_Nil py_int16_hexstr)

lemma py_int16_hexstr_nonneg: "hexstr s \<Longrightarrow> py_int16 s = Inr v \<Longrightarrow> 0 \<le> v"
  by (auto simp: py_int16_hexstr_cases hex_numeral_nonneg split: if_splits)

lemma py_slice_nonneg:
  "0 \<le> i \<Longrightarrow> 0 \<le> j \<Longrightarrow> py_slice s i j = take (nat j - nat i) (drop (nat i) s)"
  by (auto simp: py_slice_def py_index_def Let_def min_def)

lemma py_slice_agree:
  assumes "take k s = take k t" "0 \<le> i" "0 \<le> j" "j \<le> int k"
  shows "py_slice s i j = py_slice t i j"
proof -
  from assms(4) have "nat j - nat i \<le> k - nat i" by linarith
  then have "take (nat j - nat i) (drop (nat i) u) = take (nat j - nat i) (drop (nat i) (take k u))"
    for u :: "'a list"
    by (simp add: drop_take min_absorb1)
  from this[of s] this[of t] assms show ?thesis by (simp add: py_slice_nonneg)
qed

lemma fromhex_hexstr:
  "hexstr s \<Longrightarrow> even (length s) \<Longrightarrow> fromhex s = Inr (hex_bytes s)"
proof (induction s rule: hex_bytes.induct)
  case (1 a b cs)
  then show ?case
    by (simp add: hexstr_Cons digit_not_ascii_space digit_value_digit_nat)
qed simp_all

lemma length_hex_bytes: "length (hex_bytes s) = length s div 2"
  by (induction s rule: hex_bytes.induct) simp_all

section \<open>Properties of the primitive readers\<close>

lemma read_bytes_advance:
  "read_bytes tx off n = Inr (bs, off') \<Longrightarrow> off' = off + 2 * n"
  by (auto simp: read_bytes_def bind_eq_Inr)

lemma read_varint_advance:
  "read_varint tx off = Inr (v, off') \<Longrightarrow> off' \<in> {off + 2, off + 6, off + 10, off + 18}"
  by (auto simp: read_varint_def bind_eq_Inr Let_def split: if_splits)

lemma read_varint_hexstr:
  assumes "hexstr tx" "read_varint tx off = Inr (v, off')"
  shows "0 \<le> v" and "off < off'" and "even (off' - off)"
proof -
  have nn: "py_int16 (py_slice tx i j) = Inr w \<Longrightarrow> 0 \<le> w" for i j w
    using py_int16_hexstr_nonneg[OF hexstr_slice[OF assms(1)]] by blast
  from assms(2) show "0 \<le> v"
    by (auto simp: read_varint_def bind_eq_Inr Let_def dest: nn split: if_splits)
  from assms(2) show "off < off'" and "even (off' - off)"
    by (auto dest: read_varint_advance)
qed

lemma read_bytes_local:
  assumes "take k s = take k t" "0 \<le> off" "0 \<le> n" "off + 2 * n \<le> int k"
  shows "read_bytes t off n = read_bytes s off n"
  using py_slice_agree[OF assms(1), of off "off + n * 2"] assms
  by (simp add: read_bytes_def mult.commute)

lemma read_varint_eq:
  "read_varint tx off =
     (case py_int16 (py_slice tx off (off + 2)) of
        Inl e \<Rightarrow> Inl e
      | Inr b \<Rightarrow>
          if b < 253 then Inr (b, off + 2)
          else
            (let d = (if b = 253 then 4 else if b = 254 then 8 else 16)
             in case py_int16 (py_slice tx (off + 2) (off + 2 + d)) of
                  Inl e \<Rightarrow> Inl e
                | Inr v \<Rightarrow> Inr (v, off + 2 + d)))"
  by (simp add: read_varint_def bind_def Let_def add.assoc split: sum.splits)

lemma read_varint_local:
  assumes a: "take k s = take k t" and o: "0 \<le> off"
    and r: "read_varint s off = Inr (v, off')" and k: "off' \<le> int k"
  shows "read_varint t off = Inr (v, off')"
proof -
  from read_varint_advance[OF r] have adv: "off + 2 \<le> off'" by auto
  have s1: "py_slice t off (off + 2) = py_slice s off (off + 2)"
    using py_slice_agree[OF a, of off "off + 2"] o adv k by simp
  from r obtain b where b: "py_int16 (py_slice s off (off + 2)) = Inr b"
    by (auto simp: read_varint_eq split: sum.splits)
  show ?thesis
  proof (cases "b < 253")
    case True
    with r b s1 show ?thesis by (simp add: read_varint_eq)
  next
    case False
    define d :: int where "d = (if b = 253 then 4 else if b = 254 then 8 else 16)"
    have d0: "0 \<le> d" by (simp add: d_def)
    from r b False have r2: "py_int16 (py_slice s (off + 2) (off + 2 + d)) = Inr v"
      and e: "off' = off + 2 + d"
      by (auto simp: read_varint_eq d_def Let_def split: sum.splits if_splits)
    have s2: "py_slice t (off + 2) (off + 2 + d) = py_slice s (off + 2) (off + 2 + d)"
      using py_slice_agree[OF a, of "off + 2" "off + 2 + d"] o d0 k e by simp
    have "read_varint t off =
        (case py_int16 (py_slice t (off + 2) (off + 2 + d)) of
           Inl e \<Rightarrow> Inl e | Inr v \<Rightarrow> Inr (v, off + 2 + d))"
      using b s1 False unfolding read_varint_eq[of t] d_def by (simp add: Let_def)
    with s2 r2 e show ?thesis by simp
  qed
qed

section \<open>Locality of the readers\<close>

lemma local_readerI:
  assumes "\<And>s off v off'. hexstr s \<Longrightarrow> 0 \<le> off \<Longrightarrow> R s off = Inr (v, off') \<Longrightarrow>
     Q v \<and> off \<le> off' \<and> even (off' - off) \<and>
     (\<forall>t k. take k s = take k t \<longrightarrow> off' \<le> int k \<longrightarrow> R t off = Inr (v, off'))"
  shows "local_reader Q R"
  using assms unfolding local_reader_def by blast

lemma local_readerD:
  assumes "local_reader Q R" "hexstr s" "0 \<le> off" "R s off = Inr (v, off')"
  shows "Q v" and "off \<le> off'" and "even (off' - off)"
    and "take k s = take k t \<Longrightarrow> off' \<le> int k \<Longrightarrow> R t off = Inr (v, off')"
  using assms unfolding local_reader_def by blast+

lemma local_reader_weaken:
  "local_reader Q R \<Longrightarrow> (\<And>v. Q v \<Longrightarrow> Q' v) \<Longrightarrow> local_reader Q' R"
  unfolding local_reader_def by blast

lemma local_reader_return: "Q v \<Longrightarrow> local_reader Q (\<lambda>s off. Inr (v, off))"
  by (rule local_readerI) simp

lemma local_reader_seq:
  assumes R: "local_reader Q R"
    and S: "\<And>v. Q v \<Longrightarrow> local_reader Q' (S v)"
  shows "local_reader Q' (\<lambda>s off. bind (R s off) (\<lambda>(v, off1). S v s off1))"
proof (rule local_readerI)
  fix s off w off'
  assume h: "hexstr s" and o: "0 \<le> off"
    and r: "bind (R s off) (\<lambda>(v, off1). S v s off1) = Inr (w, off')"
  from r obtain v off1 where r1: "R s off = Inr (v, off1)" and r2: "S v s off1 = Inr (w, off')"
    by (auto simp: bind_eq_Inr)
  note d1 = local_readerD[OF R h o r1]
  have o1: "0 \<le> off1" using o d1(2) by simp
  note d2 = local_readerD[OF S[OF d1(1)] h o1 r2]
  have "bind (R t off) (\<lambda>(v, off1). S v t off1) = Inr (w, off')"
    if "take k s = take k t" "off' \<le> int k" for t k
  proof -
    from that d2(2) have "off1 \<le> int k" by simp
    from d1(4)[OF that(1) this] d2(4)[OF that] show ?thesis
      by (simp add: bind_Inr)
  qed
  with d1 d2 show "Q' w \<and> off \<le> off' \<and> even (off' - off) \<and>
     (\<forall>t k. take k s = take k t \<longrightarrow> off' \<le> int k \<longrightarrow>
        bind (R t off) (\<lambda>(v, off1). S v t off1) = Inr (w, off'))"
    by auto
qed

lemma local_reader_read_bytes:
  "0 \<le> n \<Longrightarrow> local_reader (\<lambda>_. True) (\<lambda>s off. read_bytes s off n)"
proof (rule local_readerI)
  fix s off v off'
  assume n: "0 \<le> n" and o: "0 \<le> off" and r: "read_bytes s off n = Inr (v, off')"
  from r have e: "off' = off + 2 * n" by (rule read_bytes_advance)
  have "read_bytes t off n = Inr (v, off')" if "take k s = take k t" "off' \<le> int k" for t k
    using read_bytes_local[OF that(1) o n] that(2) e r by simp
  with e n show "True \<and> off \<le> off' \<and> even (off' - off) \<and>
     (\<forall>t k. take k s = take k t \<longrightarrow> off' \<le> int k \<longrightarrow> read_bytes t off n = Inr (v, off'))"
    by auto
qed

lemma local_reader_read_varint: "local_reader (\<lambda>v. 0 \<le> v) read_varint"
proof (rule local_readerI)
  fix s off v off'
  assume h: "hexstr s" and o: "0 \<le> off" and r: "read_varint s off = Inr (v, off')"
  from read_varint_hexstr[OF h r] read_varint_local[OF _ o r]
  show "0 \<le> v \<and> off \<le> off' \<and> even (off' - off) \<and>
     (\<forall>t k. take k s = take k t \<longrightarrow> off' \<le> int k \<longrightarrow> read_varint t off = Inr (v, off'))"
    by auto
qed

lemmas lr_bytes = local_reader_seq[OF local_reader_read_bytes]
lemmas lr_varint = local_reader_seq[OF local_reader_read_varint]

lemma local_reader_parse_input: "local_reader (\<lambda>_. True) parse_input"
  unfolding parse_input_def
  by (intro lr_bytes lr_varint local_reader_return) simp_all

lemma local_reader_parse_output: "local_reader (\<lambda>_. True) parse_output"
  unfolding parse_output_def
  by (intro lr_bytes lr_varint local_reader_return) simp_all

lemma local_reader_parse_inputs:
  "local_reader (\<lambda>_. True) (\<lambda>s off. parse_inputs s n off acc)"
proof (induction n arbitrary: acc)
  case 0
  show ?case by (simp add: local_reader_return)
next
  case (Suc n)
  show ?case
    unfolding parse_inputs.simps
    by (rule local_reader_seq[OF local_reader_parse_input]) (rule Suc.IH)
qed

lemma local_reader_parse_outputs:
  "local_reader (\<lambda>_. True) (\<lambda>s off. parse_outputs s n off acc)"
proof (induction n arbitrary: acc)
  case 0
  show ?case by (simp add: local_reader_return)
next
  case (Suc n)
  show ?case
    unfolding parse_outputs.simps
    by (rule local_reader_seq[OF local_reader_parse_output]) (rule Suc.IH)
qed

lemma local_reader_parse_witness_items:
  "local_reader (\<lambda>_. True) (\<lambda>s off. parse_witness_items s n off acc)"
proof (induction n arbitrary: acc)
  case 0
  show ?case by (simp add: local_reader_return)
next
  case (Suc n)
  show ?case
    unfolding parse_witness_items.simps
    by (intro lr_bytes lr_varint Suc.IH) simp_all
qed

lemma local_reader_parse_witnesses:
  "local_reader (\<lambda>_. True) (\<lambda>s off. parse_witnesses s n off acc)"
proof (induction n arbitrary: acc)
  case 0
  show ?case by (simp add: local_reader_return)
next
  case (Suc n)
  show ?case
    unfolding parse_witnesses.simps
    by (intro lr_varint local_reader_seq[OF local_reader_parse_witness_items] Suc.IH)
qed

lemma check_segwit_cases:
  "check_segwit tx off = Inr (sw, off') \<Longrightarrow> (sw \<and> off' = off + 4) \<or> (\<not> sw \<and> off' = off)"
  by (auto simp: check_segwit_def bind_eq_Inr split: if_splits)

lemma check_segwit_local:
  assumes "take k s = take k t" "0 \<le> off" "off + 4 \<le> int k"
  shows "check_segwit t off = check_segwit s off"
  using py_slice_agree[OF assms(1), of off "off + 2"]
    py_slice_agree[OF assms(1), of "off + 2" "off + 4"] assms(2,3)
  by (simp add: check_segwit_def)

lemma local_reader_fields:
  "local_reader (\<lambda>_. True) (\<lambda>s off. fields_before_locktime s sw off)"
  unfolding fields_before_locktime_def
  apply (rule lr_varint)
  apply (rule local_reader_seq[OF local_reader_parse_inputs])
  apply (rule lr_varint)
  apply (rule local_reader_seq[OF local_reader_parse_outputs])
  apply (rule local_reader_seq[where Q = "\<lambda>_. True"])
   apply (cases sw)
    apply (simp add: local_reader_parse_witnesses)
   apply (simp add: local_reader_return)
  apply (simp add: local_reader_return)
  done

lemma fields_advance:
  assumes "hexstr s" "0 \<le> off" "fields_before_locktime s sw off = Inr (v, off')"
  shows "off + 4 \<le> off'"
proof -
  from assms(3) obtain ic o1 ins o2 oc o3 outs o4 ws where
    r1: "read_varint s off = Inr (ic, o1)"
    and r2: "parse_inputs s (nat ic) o1 [] = Inr (ins, o2)"
    and r3: "read_varint s o2 = Inr (oc, o3)"
    and r4: "parse_outputs s (nat oc) o3 [] = Inr (outs, o4)"
    and r5: "(if sw then parse_witnesses s (nat ic) o4 [] else Inr ([], o4)) = Inr (ws, off')"
    by (auto simp: fields_before_locktime_def bind_eq_Inr)
  from read_varint_hexstr[OF assms(1) r1] have a1: "off + 2 \<le> o1"
    using read_varint_advance[OF r1] by auto
  with assms(2) have p1: "0 \<le> o1" by simp
  from local_readerD(2)[OF local_reader_parse_inputs assms(1) p1 r2] have a2: "o1 \<le> o2" .
  from read_varint_advance[OF r3] have a3: "o2 + 2 \<le> o3" by auto
  have p3: "0 \<le> o3" using p1 a2 a3 by simp
  from local_readerD(2)[OF local_reader_parse_outputs assms(1) p3 r4] have a4: "o3 \<le> o4" .
  have p4: "0 \<le> o4" using p3 a4 by simp
  have a5: "o4 \<le> off'"
  proof (cases sw)
    case True
    with r5 have "parse_witnesses s (nat ic) o4 [] = Inr (ws, off')" by simp
    from local_readerD(2)[OF local_reader_parse_witnesses assms(1) p4 this] show ?thesis .
  next
    case False
    with r5 show ?thesis by simp
  qed
  from a1 a2 a3 a4 a5 show ?thesis by simp
qed

lemma header_and_fields_local:
  assumes h: "hexstr s" and r: "header_and_fields s = Inr (v, c)"
  shows "12 \<le> c" and "even c"
    and "take k s = take k t \<Longrightarrow> c \<le> int k \<Longrightarrow> header_and_fields t = Inr (v, c)"
proof -
  from r obtain vb o1 sw o2 f where
    r1: "read_bytes s 0 4 = Inr (vb, o1)"
    and r2: "check_segwit s o1 = Inr (sw, o2)"
    and r3: "fields_before_locktime s sw o2 = Inr (f, c)"
    and v: "v = (from_bytes_little vb, sw, f)"
    by (auto simp: header_and_fields_def bind_eq_Inr)
  from read_bytes_advance[OF r1] have o1: "o1 = 8" by simp
  from check_segwit_cases[OF r2] o1 have o2: "o2 = 8 \<or> o2 = 12" by auto
  then have p2: "0 \<le> o2" by auto
  from fields_advance[OF h p2 r3] o2 show c12: "12 \<le> c" by auto
  from local_readerD(3)[OF local_reader_fields h p2 r3] o2 show "even c" by auto
  assume a: "take k s = take k t" and k: "c \<le> int k"
  have "read_bytes t 0 4 = Inr (vb, o1)"
    using read_bytes_local[OF a, of 0 4] k c12 r1 by simp
  moreover have "check_segwit t o1 = Inr (sw, o2)"
    using check_segwit_local[OF a, of o1] k c12 r2 o1 by simp
  moreover have "fields_before_locktime t sw o2 = Inr (f, c)"
    by (rule local_readerD(4)[OF local_reader_fields h p2 r3 a k])
  ultimately show "header_and_fields t = Inr (v, c)"
    using v by (cases f) (auto simp: header_and_fields_def bind_Inr)
qed

lemma parse_body_fields:
  "parse_body tx ver sw off =
     bind (fields_before_locktime tx sw off) (\<lambda>((ins, outs, ws), off1).
     bind (read_bytes tx off1 4) (\<lambda>(locktime_bytes, off2).
       Inr (\<lparr>version = ver, segwit = sw, inputs = ins, outputs = outs, witnesses = ws,
             locktime = from_bytes_little locktime_bytes\<rparr>, off2)))"
  by (simp add: parse_body_def fields_before_locktime_def bind_def
      split: sum.splits prod.splits)

lemma parse_transaction_cursor_fields:
  "parse_transaction_cursor tx =
     bind (header_and_fields tx) (\<lambda>((ver, sw, ins, outs, ws), off1).
     bind (read_bytes tx off1 4) (\<lambda>(locktime_bytes, off2).
       Inr (\<lparr>version = ver, segwit = sw, inputs = ins, outputs = outs, witnesses = ws,
             locktime = from_bytes_little locktime_bytes\<rparr>, off2)))"
  by (simp add: parse_transaction_cursor_def header_and_fields_def parse_body_fields bind_def
      split: sum.splits prod.splits)

section \<open>The sample transaction\<close>

lemma sample_version: "read_bytes sample_tx 0 4 = Inr ([2, 0, 0, 0], 8)"
  by code_simp

lemma sample_segwit: "check_segwit sample_tx 8 = Inr (True, 12)"
  by code_simp

lemma sample_input_count: "read_varint sample_tx 12 = Inr (1, 14)"
  by code_simp

lemma sample_input: "parse_input sample_tx 14 = Inr (hd (inputs sample_record), 96)"
  by code_simp

lemma sample_inputs: "parse_inputs sample_tx 1 14 [] = Inr (inputs sample_record, 96)"
  by code_simp

lemma sample_output: "parse_output sample_tx 98 = Inr (hd (outputs sample_record), 160)"
  by code_simp

lemma sample_outputs: "parse_outputs sample_tx 2 98 [] = Inr (outputs sample_record, 222)"
  by code_simp

lemma sample_witness_items:
  "parse_witness_items sample_tx 2 224 [] = Inr (hd (witnesses sample_record), 436)"
  by code_simp

lemma sample_witnesses: "parse_witnesses sample_tx 1 222 [] = Inr (witnesses sample_record, 436)"
  by code_simp

lemma sample_body: "parse_body sample_tx 2 True 12 = Inr (sample_record, 444)"
  by code_simp

lemma parse_sample: "parse_transaction_cursor sample_tx = Inr (sample_record, 444)"
  by (simp add: parse_transaction_cursor_def sample_version sample_segwit sample_body bind_Inr)

lemma hexstr_sample: "hexstr sample_tx"
  by code_simp

lemma length_sample: "length sample_tx = 444"
  by code_simp

text \<open>
  C4. Decoding the sample transaction of the main block gives version 2, segwit true,
  one input with vout 1 and sequence 0xfffffffd, two outputs, one witness stack of two
  items, and locktime 0x000e0343.
\<close>

theorem sample_transaction_decodes:
  "\<exists>r inp w.
     parse_transaction sample_tx = Inr r \<and>
     version r = 2 \<and> segwit r \<and>
     inputs r = [inp] \<and> vout inp = 1 \<and> sequence inp = 0xfffffffd \<and>
     length (outputs r) = 2 \<and>
     witnesses r = [w] \<and> length w = 2 \<and>
     locktime r = 0x000e0343"
  by (simp add: parse_transaction_def parse_sample sample_record_def)

section \<open>The varint reader\<close>

text \<open>
  C1. \<open>read_varint\<close> consumes 1, 3, 5 or 9 bytes as the compact integer encoding says,
  but hands the follow-on bytes of the three long forms to \<open>int(s, 16)\<close>, which reads
  them most significant byte first. The encodings of 253 (\<open>fd fd00\<close>), of 65536
  (\<open>fe 00000100\<close>) and of 2^32 (\<open>ff 0000000001000000\<close>) decode to 64768, 256 and
  16777216; 65535 and 2^32 - 1, whose bytes read the same in both orders, decode to
  themselves.
\<close>

theorem read_varint_long_forms_big_endian:
  "read_varint ''fdfd00'' 0 = Inr (64768, 6) \<and>
   read_varint ''fdffff'' 0 = Inr (65535, 6) \<and>
   read_varint ''fe00000100'' 0 = Inr (256, 10) \<and>
   read_varint ''feffffffff'' 0 = Inr (4294967295, 10) \<and>
   read_varint ''ff0000000001000000'' 0 = Inr (16777216, 18) \<and>
   read_varint ''00'' 0 = Inr (0, 2) \<and>
   read_varint ''01'' 0 = Inr (1, 2) \<and>
   read_varint ''fc'' 0 = Inr (252, 2)"
  by code_simp

section \<open>Truncated text\<close>

lemma fromhex_slice_hexstr:
  assumes "hexstr s" "0 \<le> i" "0 \<le> j" "even (min (nat j) (length s) - nat i)"
  shows "fromhex (py_slice s i j) = Inr (hex_bytes (py_slice s i j))"
proof -
  have "length (py_slice s i j) = min (nat j) (length s) - nat i"
    using assms(2,3) by (simp add: py_slice_nonneg) arith
  with assms show ?thesis
    by (intro fromhex_hexstr hexstr_slice) simp_all
qed

lemma read_bytes_hexstr:
  assumes "hexstr s" "0 \<le> off" "0 \<le> n" "even (min (nat (off + 2 * n)) (length s) - nat off)"
  shows "read_bytes s off n = Inr (wire_bytes s (nat off) (nat n), off + 2 * n)"
proof -
  have sl: "py_slice s off (off + n * 2) = take (2 * nat n) (drop (nat off) s)"
    using assms(2,3) by (simp add: py_slice_nonneg nat_add_distrib nat_mult_distrib mult.commute)
  have e: "even (min (nat (off + n * 2)) (length s) - nat off)"
    using assms(4) by (simp only: mult.commute)
  have "0 \<le> off + n * 2" using assms(2,3) by simp
  from fromhex_slice_hexstr[OF assms(1,2) this e]
  have "fromhex (py_slice s off (off + n * 2)) = Inr (hex_bytes (py_slice s off (off + n * 2)))" .
  then show ?thesis
    by (simp add: read_bytes_def bind_Inr wire_bytes_def sl mult.commute)
qed

lemma length_wire_bytes:
  "length (wire_bytes s pos n) = min n ((length s - pos) div 2)"
  by (simp add: wire_bytes_def length_hex_bytes min_def) linarith

lemma read_varint_at_end:
  assumes "0 \<le> off" "int (length s) \<le> off"
  shows "read_varint s off = Inl ValueError"
proof -
  have "py_slice s off (off + 2) = []"
    using assms by (simp add: py_slice_nonneg)
  then show ?thesis
    by (simp add: read_varint_def py_int16_Nil bind_Inl)
qed






section \<open>Text that is not hexadecimal\<close>








section \<open>The cursor\<close>

lemma read_bytes_full:
  assumes "hexstr tx" "0 \<le> off" "0 \<le> n" "off + 2 * n \<le> int (length tx)"
  shows "read_bytes tx off n = Inr (wire_bytes tx (nat off) (nat n), off + 2 * n)"
    and "length (wire_bytes tx (nat off) (nat n)) = nat n"
proof -
  have m: "min (nat (off + 2 * n)) (length tx) - nat off = 2 * nat n"
    using assms(2,3,4) by (simp add: min_def nat_add_distrib nat_mult_distrib) linarith
  then have "even (min (nat (off + 2 * n)) (length tx) - nat off)" by simp
  from read_bytes_hexstr[OF assms(1,2,3) this]
  show "read_bytes tx off n = Inr (wire_bytes tx (nat off) (nat n), off + 2 * n)" .
  show "length (wire_bytes tx (nat off) (nat n)) = nat n"
    using assms(2,3,4) by (simp add: length_wire_bytes min_def)
qed

lemma parse_body_advance:
  assumes "hexstr tx" "0 \<le> off" "parse_body tx ver sw off = Inr (r, c)"
  shows "off + 12 \<le> c"
proof -
  from assms(3) obtain f c0 lb where
    ff: "fields_before_locktime tx sw off = Inr (f, c0)"
    and lt: "read_bytes tx c0 4 = Inr (lb, c)"
    by (auto simp: parse_body_fields bind_eq_Inr)
  from fields_advance[OF assms(1,2) ff] read_bytes_advance[OF lt] show ?thesis by simp
qed

lemma parse_transaction_cursor_advance:
  assumes "hexstr tx" "parse_transaction_cursor tx = Inr (r, c)"
  shows "20 \<le> c"
proof -
  from assms(2) obtain v c0 lb where
    hf: "header_and_fields tx = Inr (v, c0)"
    and lt: "read_bytes tx c0 4 = Inr (lb, c)"
    by (auto simp: parse_transaction_cursor_fields bind_eq_Inr)
  from header_and_fields_local(1)[OF assms(1) hf] read_bytes_advance[OF lt] show ?thesis by simp
qed

text \<open>
  C8 (as amended). The cursor counts characters, two to the byte. A fixed-length read
  moves it by exactly the length asked for, whatever the slice held, and returns that
  many bytes when the read lies within hexadecimal text; a varint read moves it by 1, 3,
  5 or 9 bytes and, on hexadecimal text, returns no negative number; the SegWit check
  moves it by 2 bytes or not at all. So on hexadecimal text every step of a decode
  leaves the cursor where it was or further on. Nothing keeps it within the text.
\<close>

theorem cursor_never_moves_back:
  assumes "hexstr tx"
  shows "(read_bytes tx off n = Inr (bs, o1) \<longrightarrow>
            o1 = off + 2 * n \<and>
            (0 \<le> off \<and> 0 \<le> n \<and> o1 \<le> int (length tx) \<longrightarrow> int (length bs) = n)) \<and>
         (read_varint tx off2 = Inr (v, o2) \<longrightarrow>
            0 \<le> v \<and> o2 \<in> {off2 + 2, off2 + 6, off2 + 10, off2 + 18}) \<and>
         (check_segwit tx off3 = Inr (sw, o3) \<longrightarrow> o3 = (if sw then off3 + 4 else off3)) \<and>
         (0 \<le> off4 \<and> parse_input tx off4 = Inr (inp, o4) \<longrightarrow> off4 \<le> o4) \<and>
         (0 \<le> off5 \<and> parse_inputs tx k5 off5 acc5 = Inr (ins, o5) \<longrightarrow> off5 \<le> o5) \<and>
         (0 \<le> off6 \<and> parse_output tx off6 = Inr (out, o6) \<longrightarrow> off6 \<le> o6) \<and>
         (0 \<le> off7 \<and> parse_outputs tx k7 off7 acc7 = Inr (outs, o7) \<longrightarrow> off7 \<le> o7) \<and>
         (0 \<le> off8 \<and> parse_witness_items tx k8 off8 acc8 = Inr (items, o8) \<longrightarrow> off8 \<le> o8) \<and>
         (0 \<le> off9 \<and> parse_witnesses tx k9 off9 acc9 = Inr (ws, o9) \<longrightarrow> off9 \<le> o9) \<and>
         (0 \<le> off10 \<and> parse_body tx ver sw10 off10 = Inr (r10, o10) \<longrightarrow> off10 + 12 \<le> o10) \<and>
         (parse_transaction_cursor tx = Inr (r, c) \<longrightarrow> 20 \<le> c)"
proof -
  have 1: "o1 = off + 2 * n \<and>
      (0 \<le> off \<and> 0 \<le> n \<and> o1 \<le> int (length tx) \<longrightarrow> int (length bs) = n)"
    if a: "read_bytes tx off n = Inr (bs, o1)"
  proof -
    from read_bytes_advance[OF a] have e: "o1 = off + 2 * n" .
    have "int (length bs) = n" if b: "0 \<le> off" "0 \<le> n" "o1 \<le> int (length tx)"
      using read_bytes_full[OF assms b(1,2)] b(3) e a b(2) by simp
    with e show ?thesis by blast
  qed
  have 2: "0 \<le> v \<and> o2 \<in> {off2 + 2, off2 + 6, off2 + 10, off2 + 18}"
    if a: "read_varint tx off2 = Inr (v, o2)"
    using read_varint_hexstr(1)[OF assms a] read_varint_advance[OF a] by blast
  have 3: "o3 = (if sw then off3 + 4 else off3)" if a: "check_segwit tx off3 = Inr (sw, o3)"
    using check_segwit_cases[OF a] by auto
  note m = local_readerD(2)[OF _ assms]
  show ?thesis
    using 1 2 3 m[OF local_reader_parse_input, of off4 inp o4]
      m[OF local_reader_parse_inputs, of off5 k5 acc5 ins o5]
      m[OF local_reader_parse_output, of off6 out o6]
      m[OF local_reader_parse_outputs, of off7 k7 acc7 outs o7]
      m[OF local_reader_parse_witness_items, of off8 k8 acc8 items o8]
      m[OF local_reader_parse_witnesses, of off9 k9 acc9 ws o9]
      parse_body_advance[OF assms, of off10 ver sw10 r10 o10]
      parse_transaction_cursor_advance[OF assms, of r c]
    by simp
qed

theorem cursor_never_moves_back_witness:
  "int (length [2, 0, 0, 0 :: nat]) = 4 \<and> (0::int) \<le> 1 \<and>
   (12::int) = (if True then 8 + 4 else 8) \<and>
   (14::int) \<le> 96 \<and> (98::int) \<le> 160 \<and> (98::int) \<le> 222 \<and> (224::int) \<le> 436 \<and>
   (222::int) \<le> 436 \<and> (12::int) + 12 \<le> 444 \<and> (20::int) \<le> 444 \<and>
   hexstr sample_tx \<and>
   read_bytes sample_tx 0 4 = Inr ([2, 0, 0, 0], 8) \<and>
   read_varint sample_tx 12 = Inr (1, 14) \<and>
   check_segwit sample_tx 8 = Inr (True, 12) \<and>
   parse_inputs sample_tx 1 14 [] = Inr (inputs sample_record, 96) \<and>
   parse_outputs sample_tx 2 98 [] = Inr (outputs sample_record, 222) \<and>
   parse_witnesses sample_tx 1 222 [] = Inr (witnesses sample_record, 436) \<and>
   parse_transaction_cursor sample_tx = Inr (sample_record, 444)"
  using cursor_never_moves_back[OF hexstr_sample,
      where off = 0 and n = 4 and bs = "[2, 0, 0, 0]" and ?o1.0 = 8
        and ?off2.0 = 12 and v = 1 and ?o2.0 = 14
        and ?off3.0 = 8 and sw = True and ?o3.0 = 12
        and ?off4.0 = 14 and inp = "hd (inputs sample_record)" and ?o4.0 = 96
        and ?off5.0 = 14 and ?k5.0 = 1 and ?acc5.0 = "[]" and ins = "inputs sample_record"
        and ?o5.0 = 96
        and ?off6.0 = 98 and out = "hd (outputs sample_record)" and ?o6.0 = 160
        and ?off7.0 = 98 and ?k7.0 = 2 and ?acc7.0 = "[]" and outs = "outputs sample_record"
        and ?o7.0 = 222
        and ?off8.0 = 224 and ?k8.0 = 2 and ?acc8.0 = "[]"
        and items = "hd (witnesses sample_record)" and ?o8.0 = 436
        and ?off9.0 = 222 and ?k9.0 = 1 and ?acc9.0 = "[]" and ws = "witnesses sample_record"
        and ?o9.0 = 436
        and ?off10.0 = 12 and ver = 2 and ?sw10.0 = True and ?r10.0 = sample_record
        and ?o10.0 = 444
        and r = sample_record and c = 444]
    hexstr_sample sample_version sample_input_count sample_segwit sample_input sample_inputs
    sample_output sample_outputs sample_witness_items sample_witnesses sample_body parse_sample
  by simp

text \<open>
  Six bytes of hexadecimal text: version 1, no input, no output, and nothing left for
  the locktime. The decode returns a record with the cursor at 20 characters, beyond
  the 12 there are; the read of the locktime moved it by four bytes and consumed none.
\<close>

theorem cursor_passes_the_end:
  "parse_transaction_cursor ''010000000000'' =
     Inr (\<lparr>version = 1, segwit = False, inputs = [], outputs = [], witnesses = [],
           locktime = 0\<rparr>, 20) \<and>
   length ''010000000000'' = 12 \<and>
   read_bytes ''010000000000'' 12 4 = Inr ([], 20)"
  by code_simp

section \<open>The SegWit check\<close>

lemma check_segwit_eq:
  assumes "py_int16 (py_slice tx off (off + 2)) = Inr marker"
    "py_int16 (py_slice tx (off + 2) (off + 4)) = Inr flag"
  shows "check_segwit tx off =
     Inr (marker = 0 \<and> flag \<noteq> 0, if marker = 0 \<and> flag \<noteq> 0 then off + 4 else off)"
  using assms by (simp add: check_segwit_def bind_Inr)

lemma check_segwit_fails:
  assumes "py_int16 (py_slice tx off (off + 2)) = Inl e \<or>
    py_int16 (py_slice tx (off + 2) (off + 4)) = Inl e'"
  shows "check_segwit tx off = Inl ValueError"
proof (cases "check_segwit tx off")
  case (Inl a)
  then show ?thesis by (simp add: error_is_ValueError)
next
  case (Inr b)
  with assms show ?thesis by (auto simp: check_segwit_def bind_eq_Inr)
qed

lemma parse_transaction_after_check:
  assumes "parse_transaction tx = Inr r"
  shows "\<exists>vb sw off c. read_bytes tx 0 4 = Inr (vb, 8) \<and> check_segwit tx 8 = Inr (sw, off) \<and>
     parse_body tx (from_bytes_little vb) sw off = Inr (r, c)"
proof -
  from assms obtain c where "parse_transaction_cursor tx = Inr (r, c)"
    by (cases "parse_transaction_cursor tx") (auto simp: parse_transaction_def)
  then obtain vb o1 sw off where a: "read_bytes tx 0 4 = Inr (vb, o1)"
    and b: "check_segwit tx o1 = Inr (sw, off)"
    and c: "parse_body tx (from_bytes_little vb) sw off = Inr (r, c)"
    by (auto simp: parse_transaction_cursor_def bind_eq_Inr)
  from read_bytes_advance[OF a] have "o1 = 8" by simp
  with a b c show ?thesis by blast
qed

lemma parse_body_input_count:
  assumes "parse_body tx ver sw off = Inr (r, c)"
  shows "segwit r = sw \<and> version r = ver \<and>
     (\<exists>count off'. read_varint tx off = Inr (count, off') \<and>
        (\<exists>off''. parse_inputs tx (nat count) off' [] = Inr (inputs r, off'')))"
  using assms by (auto simp: parse_body_def bind_eq_Inr)

lemma parse_inputs_length:
  "parse_inputs tx n off acc = Inr (ins, off') \<Longrightarrow> length ins = length acc + n"
  by (induction n arbitrary: off acc) (auto simp: bind_eq_Inr)

lemma read_varint_single_byte:
  assumes "py_int16 (py_slice tx off (off + 2)) = Inr b" "b < 253"
  shows "read_varint tx off = Inr (b, off + 2)"
  using assms by (simp add: read_varint_eq)

text \<open>
  C3. The SegWit check comes right after the four version bytes, at character 8. With
  marker and flag the numbers read from the two bytes there: when the marker is 0 and
  the flag is not, the cursor moves on by two bytes and the record says segwit; in
  every other case the cursor stays and the record says not segwit. The input count is
  then read at the cursor the check left, so in the second case from the marker byte
  itself, which below 0xfd is the number of inputs. A marker or flag that cannot be
  converted makes the decode fail.
\<close>

theorem segwit_detection:
  assumes "py_int16 (py_slice tx 8 10) = Inr marker" "py_int16 (py_slice tx 10 12) = Inr flag"
  shows "check_segwit tx 8 =
           Inr (marker = 0 \<and> flag \<noteq> 0, if marker = 0 \<and> flag \<noteq> 0 then 12 else 8) \<and>
         (\<forall>r. parse_transaction tx = Inr r \<longrightarrow>
            segwit r = (marker = 0 \<and> flag \<noteq> 0) \<and>
            (\<exists>count off. read_varint tx (if segwit r then 12 else 8) = Inr (count, off) \<and>
               length (inputs r) = nat count) \<and>
            (\<not> segwit r \<and> marker < 0xfd \<longrightarrow> length (inputs r) = nat marker)) \<and>
         (py_int16 (py_slice bad 8 10) = Inl e \<or> py_int16 (py_slice bad 10 12) = Inl e \<longrightarrow>
            parse_transaction bad = Inl ValueError)"
proof -
  have cs: "check_segwit tx 8 =
      Inr (marker = 0 \<and> flag \<noteq> 0, if marker = 0 \<and> flag \<noteq> 0 then 12 else 8)"
    using check_segwit_eq[of tx 8 marker flag] assms by simp
  have "segwit r = (marker = 0 \<and> flag \<noteq> 0) \<and>
      (\<exists>count off. read_varint tx (if segwit r then 12 else 8) = Inr (count, off) \<and>
         length (inputs r) = nat count) \<and>
      (\<not> segwit r \<and> marker < 0xfd \<longrightarrow> length (inputs r) = nat marker)"
    if p: "parse_transaction tx = Inr r" for r
  proof -
    from parse_transaction_after_check[OF p] cs obtain vb c where
      b: "parse_body tx (from_bytes_little vb) (marker = 0 \<and> flag \<noteq> 0)
            (if marker = 0 \<and> flag \<noteq> 0 then 12 else 8) = Inr (r, c)"
      by auto
    from parse_body_input_count[OF b] obtain count off' off'' where
      sw: "segwit r = (marker = 0 \<and> flag \<noteq> 0)"
      and rv: "read_varint tx (if marker = 0 \<and> flag \<noteq> 0 then 12 else 8) = Inr (count, off')"
      and pi: "parse_inputs tx (nat count) off' [] = Inr (inputs r, off'')"
      by blast
    from parse_inputs_length[OF pi] have len: "length (inputs r) = nat count" by simp
    have "length (inputs r) = nat marker" if n: "\<not> segwit r" "marker < 0xfd"
    proof -
      from read_varint_single_byte[of tx 8 marker] assms(1) n(2)
      have v8: "read_varint tx 8 = Inr (marker, 10)" by simp
      from sw n(1) have "\<not> (marker = 0 \<and> flag \<noteq> 0)" by simp
      with rv have "read_varint tx 8 = Inr (count, off')" by simp
      with v8 have "count = marker" by simp
      with len show ?thesis by simp
    qed
    with sw rv len show ?thesis by auto
  qed
  moreover have "parse_transaction bad = Inl ValueError"
    if f: "py_int16 (py_slice bad 8 10) = Inl e \<or> py_int16 (py_slice bad 10 12) = Inl e"
  proof (cases "parse_transaction bad")
    case (Inl a)
    then show ?thesis by (simp add: error_is_ValueError)
  next
    case (Inr r)
    from parse_transaction_after_check[OF Inr] check_segwit_fails[of bad 8 e e] f
    show ?thesis by auto
  qed
  ultimately show ?thesis using cs by blast
qed

theorem segwit_detection_witness:
  "check_segwit sample_tx 8 = Inr (True, 12) \<and>
   check_segwit ''010000000000'' 8 = Inr (False, 8) \<and>
   (\<exists>r. parse_transaction ''010000000000'' = Inr r \<and> \<not> segwit r \<and> length (inputs r) = 0) \<and>
   parse_transaction ''0100000001'' = Inl ValueError"
proof -
  have a: "py_int16 (py_slice sample_tx 8 10) = Inr 0"
    "py_int16 (py_slice sample_tx 10 12) = Inr 1"
    "py_int16 (py_slice ''010000000000'' 8 10) = Inr 0"
    "py_int16 (py_slice ''010000000000'' 10 12) = Inr 0"
    by code_simp+
  have b: "parse_transaction ''010000000000'' =
      Inr \<lparr>version = 1, segwit = False, inputs = [], outputs = [], witnesses = [],
           locktime = 0\<rparr>"
    by code_simp
  have c: "py_int16 (py_slice ''0100000001'' 10 12) = Inl ValueError"
    by code_simp
  from segwit_detection[OF a(1,2)] segwit_detection[OF a(3,4), of "''0100000001''" ValueError]
    b c show ?thesis
    by simp
qed

text \<open>
  C10. Text whose fifth byte is 0 and whose sixth byte is not is always taken as
  SegWit, the cursor moving past both bytes: no record it decodes to says otherwise.
  That holds for the legacy encoding of a transaction with no input as well (input
  count 0, then an output count that is not 0), which is therefore never decoded as a
  legacy transaction without inputs.
\<close>

theorem zero_marker_nonzero_flag_is_segwit:
  assumes "py_int16 (py_slice tx 8 10) = Inr 0" "py_int16 (py_slice tx 10 12) = Inr flag"
    "flag \<noteq> 0"
  shows "check_segwit tx 8 = Inr (True, 12) \<and>
         (\<forall>r. parse_transaction tx = Inr r \<longrightarrow>
            segwit r \<and>
            (\<exists>count off. read_varint tx 12 = Inr (count, off) \<and> length (inputs r) = nat count))"
proof -
  have cs: "check_segwit tx 8 = Inr (True, 12)"
    using check_segwit_eq[of tx 8 0 flag] assms by simp
  have "segwit r \<and>
      (\<exists>count off. read_varint tx 12 = Inr (count, off) \<and> length (inputs r) = nat count)"
    if p: "parse_transaction tx = Inr r" for r
  proof -
    from parse_transaction_after_check[OF p] cs obtain vb c where
      b: "parse_body tx (from_bytes_little vb) True 12 = Inr (r, c)"
      by auto
    from parse_body_input_count[OF b] obtain count off' off'' where
      sw: "segwit r"
      and rv: "read_varint tx 12 = Inr (count, off')"
      and pi: "parse_inputs tx (nat count) off' [] = Inr (inputs r, off'')"
      by blast
    from parse_inputs_length[OF pi] sw rv show ?thesis by auto
  qed
  with cs show ?thesis by blast
qed

theorem zero_marker_nonzero_flag_is_segwit_witness:
  "check_segwit ''01000000000100000000000000000000000000'' 8 = Inr (True, 12) \<and>
   parse_transaction ''01000000000100000000000000000000000000'' =
     Inr \<lparr>version = 1, segwit = True, inputs = [], outputs = [], witnesses = [],
          locktime = 0\<rparr> \<and>
   read_varint ''01000000000100000000000000000000000000'' 12 = Inr (0, 14)"
proof -
  have a: "py_int16 (py_slice ''01000000000100000000000000000000000000'' 8 10) = Inr 0"
    "py_int16 (py_slice ''01000000000100000000000000000000000000'' 10 12) = Inr 1"
    by code_simp+
  have b: "parse_transaction ''01000000000100000000000000000000000000'' =
      Inr \<lparr>version = 1, segwit = True, inputs = [], outputs = [], witnesses = [],
           locktime = 0\<rparr>"
    "read_varint ''01000000000100000000000000000000000000'' 12 = Inr (0, 14)"
    by code_simp+
  from zero_marker_nonzero_flag_is_segwit[OF a] b show ?thesis
    by simp
qed

section \<open>Inputs and witness stacks\<close>






section \<open>The displayed txid\<close>

lemma read_varint_within:
  assumes "0 \<le> off" "read_varint tx off = Inr (v, off')"
  shows "off < int (length tx)"
proof (rule ccontr)
  assume "\<not> off < int (length tx)"
  then have "int (length tx) \<le> off" by simp
  from read_varint_at_end[OF assms(1) this] assms(2) show False by simp
qed

lemma read_bytes_full_result:
  assumes "hexstr tx" "0 \<le> off" "0 \<le> n" "off + 2 * n \<le> int (length tx)"
    "read_bytes tx off n = Inr (bs, off')"
  shows "bs = wire_bytes tx (nat off) (nat n)" and "length bs = nat n"
  using read_bytes_full[OF assms(1-4)] assms(5) by simp_all

lemma hex_bytes_lt256: "b \<in> set (hex_bytes s) \<Longrightarrow> b < 256"
proof (induction s rule: hex_bytes.induct)
  case (1 a b' cs)
  have "digit_nat a * 16 + digit_nat b' < 256"
    using digit_nat_lt16[of a] digit_nat_lt16[of b'] by simp
  with 1 show ?case by auto
qed simp_all

lemma wire_bytes_lt256: "b \<in> set (wire_bytes tx pos n) \<Longrightarrow> b < 256"
  by (auto simp: wire_bytes_def dest: hex_bytes_lt256)

lemma length_hex: "length (hex bs) = 2 * length bs"
  by (induction bs) (simp_all add: hex_def)

lemma digit_value_hex_digit_all:
  "list_all (\<lambda>n. digit_value (hex_digit n) = Some n) [0..<16]"
  by code_simp

lemma digit_value_hex_digit: "n < 16 \<Longrightarrow> digit_value (hex_digit n) = Some n"
  using digit_value_hex_digit_all by (simp add: list_all_iff)

lemma hexstr_hex: "(\<And>b. b \<in> set bs \<Longrightarrow> b < 256) \<Longrightarrow> hexstr (hex bs)"
proof (induction bs)
  case Nil
  then show ?case by (simp add: hex_def hexstr_def)
next
  case (Cons b bs)
  have "b < 256" using Cons.prems by simp
  then have "b div 16 < 16" by simp
  moreover have "b mod 16 < 16" by simp
  ultimately have "digit_value (hex_digit (b div 16)) \<noteq> None"
    "digit_value (hex_digit (b mod 16)) \<noteq> None"
    by (simp_all add: digit_value_hex_digit)
  moreover have "hexstr (hex bs)" using Cons by simp
  ultimately show ?case by (simp add: hex_def hexstr_def)
qed

lemma parse_input_fields:
  assumes "parse_input tx off = Inr (inp, off')"
  shows "\<exists>tb vb sl sb qb o3.
     read_bytes tx off 32 = Inr (tb, off + 64) \<and>
     read_bytes tx (off + 64) 4 = Inr (vb, off + 72) \<and>
     read_varint tx (off + 72) = Inr (sl, o3) \<and>
     read_bytes tx o3 sl = Inr (sb, off' - 8) \<and>
     read_bytes tx (off' - 8) 4 = Inr (qb, off') \<and>
     inp = \<lparr>txid = hex (rev tb), vout = from_bytes_little vb, scriptSig = hex sb,
            sequence = from_bytes_little qb\<rparr>"
proof -
  from assms obtain tb o1 vb o2 sl o3 sb o4 qb where
    r1: "read_bytes tx off 32 = Inr (tb, o1)"
    and r2: "read_bytes tx o1 4 = Inr (vb, o2)"
    and r3: "read_varint tx o2 = Inr (sl, o3)"
    and r4: "read_bytes tx o3 sl = Inr (sb, o4)"
    and r5: "read_bytes tx o4 4 = Inr (qb, off')"
    and i: "inp = \<lparr>txid = hex (rev tb), vout = from_bytes_little vb, scriptSig = hex sb,
            sequence = from_bytes_little qb\<rparr>"
    by (auto simp: parse_input_def bind_eq_Inr)
  from read_bytes_advance[OF r1] have o1: "o1 = off + 64" by simp
  from read_bytes_advance[OF r2] o1 have o2: "o2 = off + 72" by simp
  from read_bytes_advance[OF r5] have o4: "o4 = off' - 8" by simp
  from r1 r2 r3 r4 r5 i o1 o2 o4 show ?thesis by blast
qed

lemma parse_input_txid:
  assumes h: "hexstr tx" and o: "0 \<le> off" and p: "parse_input tx off = Inr (inp, off')"
  shows "txid inp = hex (rev (wire_bytes tx (nat off) 32))"
    and "length (wire_bytes tx (nat off) 32) = 32"
    and "length (txid inp) = 64"
    and "hexstr (txid inp)"
proof -
  from parse_input_fields[OF p] obtain tb vb sl sb qb o3 where
    r1: "read_bytes tx off 32 = Inr (tb, off + 64)"
    and r3: "read_varint tx (off + 72) = Inr (sl, o3)"
    and i: "inp = \<lparr>txid = hex (rev tb), vout = from_bytes_little vb, scriptSig = hex sb,
            sequence = from_bytes_little qb\<rparr>"
    by blast
  from read_varint_within[OF _ r3] o have "off + 2 * 32 \<le> int (length tx)" by simp
  from read_bytes_full_result[OF h o _ this r1]
  have tb: "tb = wire_bytes tx (nat off) 32" and l: "length tb = 32" by simp_all
  from tb i show "txid inp = hex (rev (wire_bytes tx (nat off) 32))" by simp
  from tb l show "length (wire_bytes tx (nat off) 32) = 32" by simp
  from i l show "length (txid inp) = 64" by (simp add: length_hex)
  have "hexstr (hex (rev tb))"
    by (rule hexstr_hex) (auto simp: tb dest: wire_bytes_lt256)
  with i show "hexstr (txid inp)" by simp
qed

lemma parse_inputs_members:
  assumes "hexstr tx"
  shows "0 \<le> off \<Longrightarrow> parse_inputs tx n off acc = Inr (ins, off') \<Longrightarrow> inp \<in> set ins \<Longrightarrow>
     inp \<in> set acc \<or> (\<exists>pos o'. off \<le> pos \<and> parse_input tx pos = Inr (inp, o'))"
proof (induction n arbitrary: off acc)
  case 0
  then show ?case by simp
next
  case (Suc n)
  from Suc.prems(2) obtain x o1 where a: "parse_input tx off = Inr (x, o1)"
    and b: "parse_inputs tx n o1 (acc @ [x]) = Inr (ins, off')"
    by (auto simp: bind_eq_Inr)
  from local_readerD(2)[OF local_reader_parse_input assms Suc.prems(1) a] have m: "off \<le> o1" .
  with Suc.prems(1) have "0 \<le> o1" by simp
  from Suc.IH[OF this b Suc.prems(3)] a m show ?case
    by (auto intro: order_trans)
qed

text \<open>
  C7. On hexadecimal text, the txid of an input that is decoded is the hexadecimal
  writing of the 32 bytes at the cursor where the input starts, taken in reversed
  order: 64 hexadecimal digits. Every input of a record that is returned was decoded
  so, at some position from character 8 on.
\<close>

theorem txid_is_reversed_wire_bytes:
  assumes "hexstr tx"
  shows "(0 \<le> off \<and> parse_input tx off = Inr (inp, off') \<longrightarrow>
            txid inp = hex (rev (wire_bytes tx (nat off) 32)) \<and>
            length (wire_bytes tx (nat off) 32) = 32 \<and>
            length (txid inp) = 64 \<and> hexstr (txid inp)) \<and>
         (parse_transaction tx = Inr r \<longrightarrow>
            (\<forall>x \<in> set (inputs r). \<exists>pos \<ge> 8.
               txid x = hex (rev (wire_bytes tx pos 32)) \<and>
               length (wire_bytes tx pos 32) = 32 \<and> length (txid x) = 64))"
proof -
  have 1: "txid inp = hex (rev (wire_bytes tx (nat off) 32)) \<and>
      length (wire_bytes tx (nat off) 32) = 32 \<and>
      length (txid inp) = 64 \<and> hexstr (txid inp)"
    if "0 \<le> off" "parse_input tx off = Inr (inp, off')"
    using parse_input_txid[OF assms that] by simp
  have 2: "\<exists>pos \<ge> 8. txid x = hex (rev (wire_bytes tx pos 32)) \<and>
      length (wire_bytes tx pos 32) = 32 \<and> length (txid x) = 64"
    if p: "parse_transaction tx = Inr r" and x: "x \<in> set (inputs r)" for x
  proof -
    from parse_transaction_after_check[OF p] obtain vb sw o0 c where
      cs: "check_segwit tx 8 = Inr (sw, o0)"
      and pb: "parse_body tx (from_bytes_little vb) sw o0 = Inr (r, c)"
      by blast
    from check_segwit_cases[OF cs] have o0: "8 \<le> o0" by auto
    from parse_body_input_count[OF pb] obtain count o1 o2 where
      rv: "read_varint tx o0 = Inr (count, o1)"
      and pi: "parse_inputs tx (nat count) o1 [] = Inr (inputs r, o2)"
      by blast
    from read_varint_hexstr(2)[OF assms rv] o0 have o1: "8 \<le> o1" by simp
    then have "0 \<le> o1" by simp
    from parse_inputs_members[OF assms this pi x] obtain pos o' where
      pos: "o1 \<le> pos" and pp: "parse_input tx pos = Inr (x, o')"
      by auto
    from pos o1 have p0: "0 \<le> pos" and p8: "8 \<le> nat pos" by simp_all
    from parse_input_txid[OF assms p0 pp] p8 show ?thesis by blast
  qed
  from 1 2 show ?thesis by blast
qed

theorem txid_is_reversed_wire_bytes_witness:
  "hexstr sample_tx \<and>
   parse_input sample_tx 14 = Inr (hd (inputs sample_record), 96) \<and>
   txid (hd (inputs sample_record)) = hex (rev (wire_bytes sample_tx 14 32)) \<and>
   txid (hd (inputs sample_record)) =
     ''c1368b8e3daedf15612b0185f79f4e82df90f6bcd93714e0e057c355d31c8131'' \<and>
   take 64 (drop 14 sample_tx) =
     ''31811cd355c357e0e01437d9bcf690df824e9ff785012b6115dfae3d8e8b36c1'' \<and>
   length (txid (hd (inputs sample_record))) = 64"
proof -
  have a: "txid (hd (inputs sample_record)) =
     ''c1368b8e3daedf15612b0185f79f4e82df90f6bcd93714e0e057c355d31c8131''"
    by (simp add: sample_record_def)
  have b: "take 64 (drop 14 sample_tx) =
     ''31811cd355c357e0e01437d9bcf690df824e9ff785012b6115dfae3d8e8b36c1''"
    by code_simp
  note t = txid_is_reversed_wire_bytes[OF hexstr_sample,
      where off = 14 and inp = "hd (inputs sample_record)" and off' = 96 and r = sample_record]
  have pre: "(0::int) \<le> 14 \<and> parse_input sample_tx 14 = Inr (hd (inputs sample_record), 96)"
    using sample_input by simp
  have n: "nat 14 = 14" by simp
  from conjunct1[OF t, THEN mp, OF pre]
  have c: "txid (hd (inputs sample_record)) = hex (rev (wire_bytes sample_tx 14 32))"
    and d: "length (txid (hd (inputs sample_record))) = 64"
    unfolding n by blast+
  from c d a b hexstr_sample sample_input show ?thesis by blast
qed

section \<open>Fixed-width fields\<close>

lemma le_uint_Nil: "le_uint [] = 0"
  by (simp add: le_uint_def)

lemma le_uint_Cons: "le_uint (b # bs) = int b + 256 * le_uint bs"
proof -
  have "(\<Sum>i < Suc (length bs). int ((b # bs) ! i) * 256 ^ i) =
      int b + (\<Sum>i < length bs. int (bs ! i) * 256 ^ Suc i)"
    by (subst sum.lessThan_Suc_shift) simp
  also have "(\<Sum>i < length bs. int (bs ! i) * 256 ^ Suc i) =
      256 * (\<Sum>i < length bs. int (bs ! i) * 256 ^ i)"
    by (simp add: sum_distrib_left mult.assoc mult.left_commute)
  finally show ?thesis by (simp add: le_uint_def)
qed

lemma from_bytes_little_le_uint: "from_bytes_little bs = le_uint bs"
  by (induction bs) (simp_all add: le_uint_Nil le_uint_Cons)

lemma le_uint_bounds:
  "(\<And>b. b \<in> set bs \<Longrightarrow> b < 256) \<Longrightarrow> 0 \<le> le_uint bs \<and> le_uint bs < 256 ^ length bs"
proof (induction bs)
  case Nil
  then show ?case by (simp add: le_uint_Nil)
next
  case (Cons b bs)
  then have b: "int b < 256" and ih: "0 \<le> le_uint bs" "le_uint bs < 256 ^ length bs"
    by auto
  from ih(2) have "le_uint bs + 1 \<le> 256 ^ length bs" by simp
  then have "256 * (le_uint bs + 1) \<le> 256 * 256 ^ length bs" by simp
  with b ih(1) show ?case by (simp add: le_uint_Cons)
qed

lemma le_uint_wire_bounds:
  "0 \<le> le_uint (wire_bytes tx pos n) \<and>
   le_uint (wire_bytes tx pos n) < 256 ^ length (wire_bytes tx pos n)"
  by (rule le_uint_bounds) (rule wire_bytes_lt256)

lemma parse_output_fields:
  assumes "parse_output tx off = Inr (out, off')"
  shows "\<exists>vb sl sb o2.
     read_bytes tx off 8 = Inr (vb, off + 16) \<and>
     read_varint tx (off + 16) = Inr (sl, o2) \<and>
     read_bytes tx o2 sl = Inr (sb, off') \<and>
     out = \<lparr>value_satoshi = from_bytes_little vb, scriptPubKey = hex sb\<rparr>"
proof -
  from assms obtain vb o1 sl o2 sb where
    r1: "read_bytes tx off 8 = Inr (vb, o1)"
    and r2: "read_varint tx o1 = Inr (sl, o2)"
    and r3: "read_bytes tx o2 sl = Inr (sb, off')"
    and i: "out = \<lparr>value_satoshi = from_bytes_little vb, scriptPubKey = hex sb\<rparr>"
    by (auto simp: parse_output_def bind_eq_Inr)
  from read_bytes_advance[OF r1] have "o1 = off + 16" by simp
  with r1 r2 r3 i show ?thesis by blast
qed

lemma version_field:
  assumes h: "hexstr tx" and p: "parse_transaction tx = Inr r"
  shows "version r = le_uint (wire_bytes tx 0 4)" and "length (wire_bytes tx 0 4) = 4"
proof -
  from parse_transaction_after_check[OF p] obtain vb sw o0 c where
    rb: "read_bytes tx 0 4 = Inr (vb, 8)"
    and cs: "check_segwit tx 8 = Inr (sw, o0)"
    and pb: "parse_body tx (from_bytes_little vb) sw o0 = Inr (r, c)"
    by blast
  from parse_body_input_count[OF pb] obtain count o1 where
    v: "version r = from_bytes_little vb" and rv: "read_varint tx o0 = Inr (count, o1)"
    by blast
  from check_segwit_cases[OF cs] have "8 \<le> o0" by auto
  with read_varint_within[OF _ rv] have "0 + 2 * 4 \<le> int (length tx)" by simp
  from read_bytes_full_result[OF h _ _ this rb]
  have "vb = wire_bytes tx 0 4" and "length vb = 4" by simp_all
  with v show "version r = le_uint (wire_bytes tx 0 4)" and "length (wire_bytes tx 0 4) = 4"
    by (simp_all add: from_bytes_little_le_uint)
qed

lemma input_fields:
  assumes h: "hexstr tx" and o: "0 \<le> off" and p: "parse_input tx off = Inr (inp, off')"
  shows "vout inp = le_uint (wire_bytes tx (nat off + 64) 4)"
    and "length (wire_bytes tx (nat off + 64) 4) = 4"
    and "off' \<le> int (length tx) \<Longrightarrow>
           sequence inp = le_uint (wire_bytes tx (nat off' - 8) 4) \<and>
           length (wire_bytes tx (nat off' - 8) 4) = 4"
proof -
  from parse_input_fields[OF p] obtain tb vb sl sb qb o3 where
    r2: "read_bytes tx (off + 64) 4 = Inr (vb, off + 72)"
    and r3: "read_varint tx (off + 72) = Inr (sl, o3)"
    and r4: "read_bytes tx o3 sl = Inr (sb, off' - 8)"
    and r5: "read_bytes tx (off' - 8) 4 = Inr (qb, off')"
    and i: "inp = \<lparr>txid = hex (rev tb), vout = from_bytes_little vb, scriptSig = hex sb,
            sequence = from_bytes_little qb\<rparr>"
    by blast
  from read_varint_within[OF _ r3] o have "off + 64 + 2 * 4 \<le> int (length tx)" by simp
  from read_bytes_full_result[OF h _ _ this r2] o
  have vb: "vb = wire_bytes tx (nat (off + 64)) 4" "length vb = 4" by simp_all
  have n: "nat (off + 64) = nat off + 64" using o by simp
  from vb i n show "vout inp = le_uint (wire_bytes tx (nat off + 64) 4)"
    and "length (wire_bytes tx (nat off + 64) 4) = 4"
    by (simp_all add: from_bytes_little_le_uint)
  assume e: "off' \<le> int (length tx)"
  from read_varint_hexstr[OF h r3] have sl: "0 \<le> sl" and o3: "off + 72 < o3" by simp_all
  from read_bytes_advance[OF r4] sl o3 o have q0: "0 \<le> off' - 8" by simp
  from e have "off' - 8 + 2 * 4 \<le> int (length tx)" by simp
  from read_bytes_full_result[OF h q0 _ this r5]
  have qb: "qb = wire_bytes tx (nat (off' - 8)) 4" "length qb = 4" by simp_all
  have m: "nat (off' - 8) = nat off' - 8" using q0 by simp
  from qb i m show "sequence inp = le_uint (wire_bytes tx (nat off' - 8) 4) \<and>
      length (wire_bytes tx (nat off' - 8) 4) = 4"
    by (simp add: from_bytes_little_le_uint)
qed

lemma output_field:
  assumes h: "hexstr tx" and o: "0 \<le> off" and p: "parse_output tx off = Inr (out, off')"
  shows "value_satoshi out = le_uint (wire_bytes tx (nat off) 8)"
    and "length (wire_bytes tx (nat off) 8) = 8"
proof -
  from parse_output_fields[OF p] obtain vb sl sb o2 where
    r1: "read_bytes tx off 8 = Inr (vb, off + 16)"
    and r2: "read_varint tx (off + 16) = Inr (sl, o2)"
    and i: "out = \<lparr>value_satoshi = from_bytes_little vb, scriptPubKey = hex sb\<rparr>"
    by blast
  from read_varint_within[OF _ r2] o have "off + 2 * 8 \<le> int (length tx)" by simp
  from read_bytes_full_result[OF h o _ this r1]
  have "vb = wire_bytes tx (nat off) 8" "length vb = 8" by simp_all
  with i show "value_satoshi out = le_uint (wire_bytes tx (nat off) 8)"
    and "length (wire_bytes tx (nat off) 8) = 8"
    by (simp_all add: from_bytes_little_le_uint)
qed

lemma locktime_field:
  assumes h: "hexstr tx" and p: "parse_transaction_cursor tx = Inr (r, c)"
    and e: "c \<le> int (length tx)"
  shows "locktime r = le_uint (wire_bytes tx (nat c - 8) 4)"
    and "length (wire_bytes tx (nat c - 8) 4) = 4"
proof -
  from p obtain v c0 lb where
    hf: "header_and_fields tx = Inr (v, c0)"
    and lt: "read_bytes tx c0 4 = Inr (lb, c)"
    and rr: "(case v of (ver, sw, ins, outs, ws) \<Rightarrow>
               \<lparr>version = ver, segwit = sw, inputs = ins, outputs = outs, witnesses = ws,
                locktime = from_bytes_little lb\<rparr>) = r"
    by (auto simp: parse_transaction_cursor_fields bind_eq_Inr)
  from read_bytes_advance[OF lt] have c: "c0 = c - 8" by simp
  from header_and_fields_local(1)[OF h hf] have c0: "0 \<le> c0" by simp
  from e c have "c0 + 2 * 4 \<le> int (length tx)" by simp
  from read_bytes_full_result[OF h c0 _ this lt]
  have lb: "lb = wire_bytes tx (nat c0) 4" "length lb = 4" by simp_all
  have n: "nat c0 = nat c - 8" using c c0 by simp
  from rr have "locktime r = from_bytes_little lb" by (auto split: prod.splits)
  with lb n show "locktime r = le_uint (wire_bytes tx (nat c - 8) 4)"
    and "length (wire_bytes tx (nat c - 8) 4) = 4"
    by (simp_all add: from_bytes_little_le_uint)
qed

lemma parse_body_steps:
  assumes "parse_body tx ver sw off = Inr (r, c)"
  shows "\<exists>count o1 o2 oc o3 o4 lb.
     read_varint tx off = Inr (count, o1) \<and>
     parse_inputs tx (nat count) o1 [] = Inr (inputs r, o2) \<and>
     read_varint tx o2 = Inr (oc, o3) \<and>
     parse_outputs tx (nat oc) o3 [] = Inr (outputs r, o4) \<and>
     (if sw then parse_witnesses tx (nat count) o4 [] else Inr ([], o4)) =
       Inr (witnesses r, c - 8) \<and>
     read_bytes tx (c - 8) 4 = Inr (lb, c) \<and>
     version r = ver \<and> segwit r = sw \<and> locktime r = from_bytes_little lb"
proof -
  from assms obtain count o1 ins o2 oc o3 outs o4 ws o5 lb where
    r1: "read_varint tx off = Inr (count, o1)"
    and r2: "parse_inputs tx (nat count) o1 [] = Inr (ins, o2)"
    and r3: "read_varint tx o2 = Inr (oc, o3)"
    and r4: "parse_outputs tx (nat oc) o3 [] = Inr (outs, o4)"
    and r5: "(if sw then parse_witnesses tx (nat count) o4 [] else Inr ([], o4)) = Inr (ws, o5)"
    and r6: "read_bytes tx o5 4 = Inr (lb, c)"
    and rr: "r = \<lparr>version = ver, segwit = sw, inputs = ins, outputs = outs, witnesses = ws,
               locktime = from_bytes_little lb\<rparr>"
    by (auto simp: parse_body_def bind_eq_Inr)
  from read_bytes_advance[OF r6] have "o5 = c - 8" by simp
  with r1 r2 r3 r4 r5 r6 rr show ?thesis by auto
qed

lemma parse_inputs_members_within:
  assumes "hexstr tx"
  shows "0 \<le> off \<Longrightarrow> parse_inputs tx n off acc = Inr (ins, off') \<Longrightarrow> x \<in> set ins \<Longrightarrow>
     x \<in> set acc \<or> (\<exists>pos o'. off \<le> pos \<and> o' \<le> off' \<and> parse_input tx pos = Inr (x, o'))"
proof (induction n arbitrary: off acc)
  case 0
  then show ?case by simp
next
  case (Suc n)
  from Suc.prems(2) obtain y o1 where a: "parse_input tx off = Inr (y, o1)"
    and b: "parse_inputs tx n o1 (acc @ [y]) = Inr (ins, off')"
    by (auto simp: bind_eq_Inr)
  from local_readerD(2)[OF local_reader_parse_input assms Suc.prems(1) a] have m: "off \<le> o1" .
  with Suc.prems(1) have o1: "0 \<le> o1" by simp
  from local_readerD(2)[OF local_reader_parse_inputs assms o1 b] have m2: "o1 \<le> off'" .
  from Suc.IH[OF o1 b Suc.prems(3)] a m m2 show ?case
    by (auto intro: order_trans)
qed

lemma parse_outputs_members:
  assumes "hexstr tx"
  shows "0 \<le> off \<Longrightarrow> parse_outputs tx n off acc = Inr (outs, off') \<Longrightarrow> y \<in> set outs \<Longrightarrow>
     y \<in> set acc \<or> (\<exists>pos o'. off \<le> pos \<and> parse_output tx pos = Inr (y, o'))"
proof (induction n arbitrary: off acc)
  case 0
  then show ?case by simp
next
  case (Suc n)
  from Suc.prems(2) obtain z o1 where a: "parse_output tx off = Inr (z, o1)"
    and b: "parse_outputs tx n o1 (acc @ [z]) = Inr (outs, off')"
    by (auto simp: bind_eq_Inr)
  from local_readerD(2)[OF local_reader_parse_output assms Suc.prems(1) a] have m: "off \<le> o1" .
  with Suc.prems(1) have o1: "0 \<le> o1" by simp
  from Suc.IH[OF o1 b Suc.prems(3)] a m show ?case
    by (auto intro: order_trans)
qed

lemma record_fields:
  assumes h: "hexstr tx" and p: "parse_transaction tx = Inr r"
  shows "\<forall>x \<in> set (inputs r). \<exists>pos \<ge> 8.
           vout x = le_uint (wire_bytes tx (pos + 64) 4) \<and>
           length (wire_bytes tx (pos + 64) 4) = 4 \<and>
           (\<exists>q \<ge> pos + 74. sequence x = le_uint (wire_bytes tx q 4) \<and>
              length (wire_bytes tx q 4) = 4)"
    and "\<forall>y \<in> set (outputs r). \<exists>pos \<ge> 12.
           value_satoshi y = le_uint (wire_bytes tx pos 8) \<and> length (wire_bytes tx pos 8) = 8"
proof -
  from parse_transaction_after_check[OF p] obtain vb sw o0 c where
    cs: "check_segwit tx 8 = Inr (sw, o0)"
    and pb: "parse_body tx (from_bytes_little vb) sw o0 = Inr (r, c)"
    by blast
  from check_segwit_cases[OF cs] have o0: "8 \<le> o0" by auto
  from parse_body_steps[OF pb] obtain count o1 o2 oc o3 o4 where
    rv: "read_varint tx o0 = Inr (count, o1)"
    and pi: "parse_inputs tx (nat count) o1 [] = Inr (inputs r, o2)"
    and rv2: "read_varint tx o2 = Inr (oc, o3)"
    and po: "parse_outputs tx (nat oc) o3 [] = Inr (outputs r, o4)"
    by blast
  from read_varint_advance[OF rv] o0 have o1: "10 \<le> o1" by auto
  then have o1': "0 \<le> o1" by simp
  from local_readerD(2)[OF local_reader_parse_inputs h o1' pi] have o2: "o1 \<le> o2" .
  from read_varint_within[OF _ rv2] o1 o2 have e2: "o2 < int (length tx)" by simp
  from read_varint_advance[OF rv2] o1 o2 have o3: "12 \<le> o3" by auto
  show "\<forall>x \<in> set (inputs r). \<exists>pos \<ge> 8.
           vout x = le_uint (wire_bytes tx (pos + 64) 4) \<and>
           length (wire_bytes tx (pos + 64) 4) = 4 \<and>
           (\<exists>q \<ge> pos + 74. sequence x = le_uint (wire_bytes tx q 4) \<and>
              length (wire_bytes tx q 4) = 4)"
  proof
    fix x assume "x \<in> set (inputs r)"
    from parse_inputs_members_within[OF h o1' pi this] obtain pos o' where
      pos: "o1 \<le> pos" and o': "o' \<le> o2" and pp: "parse_input tx pos = Inr (x, o')"
      by auto
    from pos o1 have p0: "0 \<le> pos" and p8: "8 \<le> nat pos" by simp_all
    from o' e2 have e: "o' \<le> int (length tx)" by simp
    note f = input_fields[OF h p0 pp]
    from parse_input_fields[OF pp] obtain sl o3' sb where
      a: "read_varint tx (pos + 72) = Inr (sl, o3')" and b: "read_bytes tx o3' sl = Inr (sb, o' - 8)"
      by blast
    from read_varint_hexstr(1)[OF h a] read_varint_advance[OF a] read_bytes_advance[OF b]
    have "pos + 74 \<le> o' - 8" by auto
    with p0 have q: "nat pos + 74 \<le> nat o' - 8" by simp
    from f(1,2) f(3)[OF e] p8 q show "\<exists>pos \<ge> 8.
           vout x = le_uint (wire_bytes tx (pos + 64) 4) \<and>
           length (wire_bytes tx (pos + 64) 4) = 4 \<and>
           (\<exists>q \<ge> pos + 74. sequence x = le_uint (wire_bytes tx q 4) \<and>
              length (wire_bytes tx q 4) = 4)"
      by blast
  qed
  show "\<forall>y \<in> set (outputs r). \<exists>pos \<ge> 12.
           value_satoshi y = le_uint (wire_bytes tx pos 8) \<and> length (wire_bytes tx pos 8) = 8"
  proof
    fix y assume "y \<in> set (outputs r)"
    from o3 have o3': "0 \<le> o3" by simp
    from parse_outputs_members[OF h o3' po \<open>y \<in> set (outputs r)\<close>] obtain pos o' where
      pos: "o3 \<le> pos" and pp: "parse_output tx pos = Inr (y, o')"
      by auto
    from pos o3 have p0: "0 \<le> pos" and p12: "12 \<le> nat pos" by simp_all
    from output_field[OF h p0 pp] p12 show "\<exists>pos \<ge> 12.
           value_satoshi y = le_uint (wire_bytes tx pos 8) \<and> length (wire_bytes tx pos 8) = 8"
      by blast
  qed
qed

text \<open>
  C6. On hexadecimal text every numeric field of fixed width is the little-endian
  unsigned value of the bytes of its width on the wire: the version of the four bytes
  at the start; the vout of an input of the four bytes 32 bytes after the input's
  start, its sequence of the four bytes that end the input; the amount of an output
  of the eight bytes at the output's start; the locktime of the four bytes before the
  final cursor. The sequence of an input and the locktime are the last bytes read of
  an input and of the transaction: for them the text has to reach that far. Such a
  value is at least 0 and below 256 to the power of the width. The four bytes
  \<open>01000000\<close> give 1 and \<open>00000000\<close> give 0.
\<close>

theorem fixed_width_fields_little_endian:
  assumes "hexstr tx"
  shows "(parse_transaction tx = Inr r \<longrightarrow>
            version r = le_uint (wire_bytes tx 0 4) \<and> length (wire_bytes tx 0 4) = 4 \<and>
            (\<forall>x \<in> set (inputs r). \<exists>pos \<ge> 8.
               vout x = le_uint (wire_bytes tx (pos + 64) 4) \<and>
               length (wire_bytes tx (pos + 64) 4) = 4 \<and>
               (\<exists>q \<ge> pos + 74. sequence x = le_uint (wire_bytes tx q 4) \<and>
                  length (wire_bytes tx q 4) = 4)) \<and>
            (\<forall>y \<in> set (outputs r). \<exists>pos \<ge> 12.
               value_satoshi y = le_uint (wire_bytes tx pos 8) \<and>
               length (wire_bytes tx pos 8) = 8)) \<and>
         (0 \<le> off \<and> parse_input tx off = Inr (inp, off') \<longrightarrow>
            vout inp = le_uint (wire_bytes tx (nat off + 64) 4) \<and>
            length (wire_bytes tx (nat off + 64) 4) = 4 \<and>
            (off' \<le> int (length tx) \<longrightarrow>
               sequence inp = le_uint (wire_bytes tx (nat off' - 8) 4) \<and>
               length (wire_bytes tx (nat off' - 8) 4) = 4)) \<and>
         (0 \<le> p \<and> parse_output tx p = Inr (out, p') \<longrightarrow>
            value_satoshi out = le_uint (wire_bytes tx (nat p) 8) \<and>
            length (wire_bytes tx (nat p) 8) = 8) \<and>
         (parse_transaction_cursor tx = Inr (r', c) \<and> c \<le> int (length tx) \<longrightarrow>
            locktime r' = le_uint (wire_bytes tx (nat c - 8) 4) \<and>
            length (wire_bytes tx (nat c - 8) 4) = 4) \<and>
         0 \<le> le_uint (wire_bytes tx k n) \<and>
         le_uint (wire_bytes tx k n) < 256 ^ length (wire_bytes tx k n) \<and>
         le_uint (wire_bytes ''01000000'' 0 4) = 1 \<and>
         le_uint (wire_bytes ''00000000'' 0 4) = 0"
proof -
  have 1: "version r = le_uint (wire_bytes tx 0 4) \<and> length (wire_bytes tx 0 4) = 4 \<and>
      (\<forall>x \<in> set (inputs r). \<exists>pos \<ge> 8.
         vout x = le_uint (wire_bytes tx (pos + 64) 4) \<and>
         length (wire_bytes tx (pos + 64) 4) = 4 \<and>
         (\<exists>q \<ge> pos + 74. sequence x = le_uint (wire_bytes tx q 4) \<and>
            length (wire_bytes tx q 4) = 4)) \<and>
      (\<forall>y \<in> set (outputs r). \<exists>pos \<ge> 12.
         value_satoshi y = le_uint (wire_bytes tx pos 8) \<and>
         length (wire_bytes tx pos 8) = 8)"
    if p: "parse_transaction tx = Inr r"
    using version_field[OF assms p] record_fields[OF assms p] by blast
  have 2: "vout inp = le_uint (wire_bytes tx (nat off + 64) 4) \<and>
      length (wire_bytes tx (nat off + 64) 4) = 4 \<and>
      (off' \<le> int (length tx) \<longrightarrow>
         sequence inp = le_uint (wire_bytes tx (nat off' - 8) 4) \<and>
         length (wire_bytes tx (nat off' - 8) 4) = 4)"
    if "0 \<le> off" "parse_input tx off = Inr (inp, off')"
    using input_fields[OF assms that] by blast
  have 3: "value_satoshi out = le_uint (wire_bytes tx (nat p) 8) \<and>
      length (wire_bytes tx (nat p) 8) = 8"
    if "0 \<le> p" "parse_output tx p = Inr (out, p')"
    using output_field[OF assms that] by blast
  have 4: "locktime r' = le_uint (wire_bytes tx (nat c - 8) 4) \<and>
      length (wire_bytes tx (nat c - 8) 4) = 4"
    if "parse_transaction_cursor tx = Inr (r', c)" "c \<le> int (length tx)"
    using locktime_field[OF assms that] by blast
  have 5: "le_uint (wire_bytes ''01000000'' 0 4) = 1" "le_uint (wire_bytes ''00000000'' 0 4) = 0"
    unfolding from_bytes_little_le_uint[symmetric] by code_simp+
  from 1 2 3 4 5 le_uint_wire_bounds[of tx k n] show ?thesis by blast
qed

theorem fixed_width_fields_little_endian_witness:
  "hexstr sample_tx \<and> parse_transaction sample_tx = Inr sample_record \<and>
   version sample_record = le_uint (wire_bytes sample_tx 0 4) \<and>
   version sample_record = 2 \<and> take 8 sample_tx = ''02000000'' \<and>
   vout (hd (inputs sample_record)) = le_uint (wire_bytes sample_tx 78 4) \<and>
   sequence (hd (inputs sample_record)) = le_uint (wire_bytes sample_tx 88 4) \<and>
   value_satoshi (hd (outputs sample_record)) = le_uint (wire_bytes sample_tx 98 8) \<and>
   locktime sample_record = le_uint (wire_bytes sample_tx 436 4) \<and>
   locktime sample_record = 0x000e0343 \<and> drop 436 sample_tx = ''43030e00''"
proof -
  have p: "parse_transaction sample_tx = Inr sample_record"
    by (simp add: parse_transaction_def parse_sample)
  note t = fixed_width_fields_little_endian[OF hexstr_sample,
      where r = sample_record and off = 14 and inp = "hd (inputs sample_record)" and off' = 96
        and p = 98 and out = "hd (outputs sample_record)" and p' = 160
        and r' = sample_record and c = 444]
  have a: "(0::int) \<le> 14 \<and> parse_input sample_tx 14 = Inr (hd (inputs sample_record), 96)"
    "(96::int) \<le> int (length sample_tx)"
    "(0::int) \<le> 98 \<and> parse_output sample_tx 98 = Inr (hd (outputs sample_record), 160)"
    "parse_transaction_cursor sample_tx = Inr (sample_record, 444) \<and>
       (444::int) \<le> int (length sample_tx)"
    using sample_input sample_output parse_sample by (simp_all add: length_sample)
  have n: "nat 14 + 64 = 78" "nat 96 - 8 = 88" "nat 98 = 98" "nat 444 - 8 = 436" by simp_all
  from t p a have
    "version sample_record = le_uint (wire_bytes sample_tx 0 4)"
    "vout (hd (inputs sample_record)) = le_uint (wire_bytes sample_tx (nat 14 + 64) 4)"
    "sequence (hd (inputs sample_record)) = le_uint (wire_bytes sample_tx (nat 96 - 8) 4)"
    "value_satoshi (hd (outputs sample_record)) = le_uint (wire_bytes sample_tx (nat 98) 8)"
    "locktime sample_record = le_uint (wire_bytes sample_tx (nat 444 - 8) 4)"
    by blast+
  then have b:
    "version sample_record = le_uint (wire_bytes sample_tx 0 4)"
    "vout (hd (inputs sample_record)) = le_uint (wire_bytes sample_tx 78 4)"
    "sequence (hd (inputs sample_record)) = le_uint (wire_bytes sample_tx 88 4)"
    "value_satoshi (hd (outputs sample_record)) = le_uint (wire_bytes sample_tx 98 8)"
    "locktime sample_record = le_uint (wire_bytes sample_tx 436 4)"
    unfolding n by blast+
  have c: "version sample_record = 2" "locktime sample_record = 0x000e0343"
    by (simp_all add: sample_record_def)
  have d: "take 8 sample_tx = ''02000000''" "drop 436 sample_tx = ''43030e00''"
    by code_simp+
  from b c d p hexstr_sample show ?thesis by blast
qed

end
